theory Spec2Isabelle
  imports Main "HOL-Library.Word"
begin

unbundle bit_operations_syntax

section \<open>Zone memory allocation (src/z\_zone.c)\<close>

text \<open>
  The unit keeps one circular doubly-linked list of block headers per tag, on top of
  the C library's \<^verbatim>\<open>malloc\<close> and \<^verbatim>\<open>free\<close>. The embedding is at the
  level of the pointers: a store maps the address of every header that is held from
  \<^verbatim>\<open>malloc\<close> to its four fields, \<^verbatim>\<open>blockbytag\<close> is the array of list heads,
  and each statement of the source that reads or writes through a pointer is a lookup or
  an update of the store. Reading or writing through a pointer to a header that is not
  held is undefined behaviour in C and is the result \<open>Inl Undefined\<close> here.

  Integer types are those of an LP64 target: pointers and \<^verbatim>\<open>size_t\<close> are 64-bit
  words, \<^verbatim>\<open>int\<close> is a 32-bit word read in two's complement (\<open>sint\<close>), with
  wrap-around on overflow, and the \<^verbatim>\<open>unsigned char\<close> tag field holds the tag
  modulo 256. Every span held from \<^verbatim>\<open>malloc\<close> is recorded with the number of bytes
  that was asked for: a header is written, and payload bytes are read and written, only
  inside a held span, and anything else is \<open>Inl Undefined\<close> as well.
\<close>

type_synonym addr = "64 word"
type_synonym size_t = "64 word"
type_synonym cint = "32 word"
type_synonym byte = "8 word"

subsection \<open>Tunables and tags\<close>

definition CHUNK_SIZE :: size_t where
  "CHUNK_SIZE = 32"

text \<open>\<^verbatim>\<open>sizeof(memblock_t)\<close>: two pointers, a \<^verbatim>\<open>size_t\<close> and a byte, padded to 8.\<close>

definition sizeof_memblock :: size_t where
  "sizeof_memblock = 32"

definition HEADER_SIZE :: size_t where
  "HEADER_SIZE = (sizeof_memblock + CHUNK_SIZE - 1) AND NOT (CHUNK_SIZE - 1)"

text \<open>
  Modelled from the spec: the tag enumeration of z\_zone.h, which is not among the
  sources. The spec reserves FREE, the lowest tag, and CACHE, the highest valid tag; the
  array \<^verbatim>\<open>blockbytag\<close> has \<^verbatim>\<open>PU_MAX\<close> entries, one past CACHE. The values are
  those of the enumeration PU\_FREE, PU\_STATIC, PU\_SOUND, PU\_MUSIC, PU\_LEVEL,
  PU\_LEVSPEC, PU\_CACHE, PU\_MAX.
\<close>

definition PU_FREE :: int where
  "PU_FREE = 0"

definition PU_CACHE :: int where
  "PU_CACHE = 6"

definition PU_MAX :: int where
  "PU_MAX = 7"

subsection \<open>Data\<close>

record memblock =
  "next" :: addr
  prev :: addr
  size_b :: size_t
  tag :: int

type_synonym heap = "addr \<rightharpoonup> memblock"

text \<open>
  \<open>spans\<close> is the raw allocator's view: the address of every span that is held, with
  the number of bytes that \<^verbatim>\<open>malloc\<close> was asked for. \<open>blocks\<close> are the headers
  that the unit has written at the start of held spans; the payload of a block starts
  \<^verbatim>\<open>HEADER_SIZE\<close> bytes after its header and its bytes are in \<open>mem\<close>. The
  spans of an allocator do not overlap, so the header and the payload of a block are
  apart from those of every other block.
  \<open>released\<close> logs the spans given back with \<^verbatim>\<open>free\<close>, oldest first; \<open>slots\<close>
  are the callers' variables that a \<^verbatim>\<open>void **user\<close> argument can point to.
\<close>

record zone =
  blockbytag :: "int \<Rightarrow> addr"
  memory_size :: cint
  free_memory :: cint
  blocks :: heap
  spans :: "addr \<rightharpoonup> size_t"
  released :: "addr list"
  mem :: "addr \<Rightarrow> byte"
  slots :: "nat \<Rightarrow> addr"

text \<open>
  Modelled from the spec: \<^verbatim>\<open>I_Error\<close>, the fatal-error facility, is declared in
  lprintf.h and is not among the sources; by the spec it ends the process, so a call of it
  is the result \<open>Inl Fatal\<close> and nothing of the caller runs after it.

  \<open>Undefined\<close>: the source indexes \<^verbatim>\<open>blockbytag\<close> out of bounds, goes through a
  pointer to a header that is not held, or reads or writes outside of a held span.
  \<open>BadAllocator\<close>: \<^verbatim>\<open>malloc\<close> answered with
  an address that a real allocator cannot return (a span that is still held, or one that
  does not end below the top of the address space).
\<close>

datatype error = Fatal | Undefined | BadAllocator

definition valid_tag :: "int \<Rightarrow> bool" where
  "valid_tag t \<longleftrightarrow> 0 \<le> t \<and> t < PU_MAX"

text \<open>\<^verbatim>\<open>Z_Init\<close>: every list head is NULL. The ceiling is the platform's default.\<close>

definition Z_Init :: "cint \<Rightarrow> (addr \<Rightarrow> byte) \<Rightarrow> (nat \<Rightarrow> addr) \<Rightarrow> zone" where
  "Z_Init ceiling m sl =
     \<lparr>blockbytag = (\<lambda>_. 0), memory_size = ceiling, free_memory = 0,
      blocks = Map.empty, spans = Map.empty, released = [], mem = m, slots = sl\<rparr>"

subsection \<open>Unlinking and linking\<close>

text \<open>
  Lines 214-215 (and 274-275):
  \<^verbatim>\<open>block->prev->next = block->next; block->next->prev = block->prev;\<close>
  The second statement reads the block again after the first has written.
\<close>

definition unlink :: "addr \<Rightarrow> heap \<Rightarrow> heap option" where
  "unlink block bs =
     (case bs block of None \<Rightarrow> None | Some b \<Rightarrow>
      (case bs (prev b) of None \<Rightarrow> None | Some p \<Rightarrow>
       (let bs1 = bs(prev b \<mapsto> p\<lparr>next := next b\<rparr>) in
        (case bs1 block of None \<Rightarrow> None | Some b1 \<Rightarrow>
         (case bs1 (next b1) of None \<Rightarrow> None | Some n \<Rightarrow>
            Some (bs1(next b1 \<mapsto> n\<lparr>prev := prev b1\<rparr>)))))))"

text \<open>
  Lines 209-213 (and 269-273): the head of the block's list is cleared when the block is
  alone, and advanced when the block is the head.
\<close>

definition drop_head :: "addr \<Rightarrow> memblock \<Rightarrow> (int \<Rightarrow> addr) \<Rightarrow> (int \<Rightarrow> addr)" where
  "drop_head block b heads =
     (if block = next b then heads(tag b := 0)
      else if heads (tag b) = block then heads(tag b := next b)
      else heads)"

text \<open>
  Lines 184-187 (and 284-287), for a list with head \<open>head\<close>:
  \<^verbatim>\<open>head->prev->next = block; block->prev = head->prev; block->next = head;
  head->prev = block;\<close>
\<close>

definition link_tail :: "addr \<Rightarrow> addr \<Rightarrow> heap \<Rightarrow> heap option" where
  "link_tail head block bs =
     (case bs head of None \<Rightarrow> None | Some h \<Rightarrow>
      (case bs (prev h) of None \<Rightarrow> None | Some t \<Rightarrow>
       (let bs1 = bs(prev h \<mapsto> t\<lparr>next := block\<rparr>) in
        (case (bs1 head, bs1 block) of
           (Some h1, Some b1) \<Rightarrow>
             (let bs2 = bs1(block \<mapsto> b1\<lparr>prev := prev h1\<rparr>) in
              (case bs2 block of None \<Rightarrow> None | Some b2 \<Rightarrow>
               (let bs3 = bs2(block \<mapsto> b2\<lparr>next := head\<rparr>) in
                (case bs3 head of None \<Rightarrow> None | Some h3 \<Rightarrow>
                   Some (bs3(head \<mapsto> h3\<lparr>prev := block\<rparr>))))))
         | _ \<Rightarrow> None))))"

text \<open>
  Lines 177-188 (and 277-288): the block becomes the only member of an empty list, or
  the new tail of a list that has a head. The tag indexes the array.
\<close>

definition link_block :: "int \<Rightarrow> addr \<Rightarrow> zone \<Rightarrow> error + zone" where
  "link_block t block s =
     (if \<not> valid_tag t then Inl Undefined
      else if blockbytag s t = 0 then
        (case blocks s block of None \<Rightarrow> Inl Undefined | Some b \<Rightarrow>
           Inr (s\<lparr>blockbytag := (blockbytag s)(t := block),
                  blocks := (blocks s)(block \<mapsto> b\<lparr>next := block, prev := block\<rparr>)\<rparr>))
      else
        (case link_tail (blockbytag s t) block (blocks s) of
           None \<Rightarrow> Inl Undefined
         | Some bs \<Rightarrow> Inr (s\<lparr>blocks := bs\<rparr>)))"

subsection \<open>Z\_Free\<close>

definition Z_Free :: "addr \<Rightarrow> zone \<Rightarrow> error + zone" where
  "Z_Free p s =
     (let block = p - HEADER_SIZE in
      if p = 0 \<or> block = 0 then Inr s
      else
        (case blocks s block of None \<Rightarrow> Inl Undefined | Some b \<Rightarrow>
           if \<not> valid_tag (tag b) then Inl Undefined
           else
             (let heads = drop_head block b (blockbytag s) in
              (case unlink block (blocks s) of None \<Rightarrow> Inl Undefined | Some bs \<Rightarrow>
               (case bs block of None \<Rightarrow> Inl Undefined | Some b' \<Rightarrow>
                  Inr (s\<lparr>blockbytag := heads,
                         free_memory := free_memory s + ucast (size_b b'),
                         blocks := bs(block := None),
                         spans := (spans s)(block := None),
                         released := released s @ [block]\<rparr>))))))"

subsection \<open>Z\_FreeTags\<close>

text \<open>
  Lines 238-245, the loop over one list. \<open>next\<close> is read before the block is freed.
\<close>

partial_function (option) free_loop :: "addr \<Rightarrow> addr \<Rightarrow> zone \<Rightarrow> (error + zone) option" where
  "free_loop block end_block s =
     (case blocks s block of None \<Rightarrow> Some (Inl Undefined) | Some b \<Rightarrow>
      (case Z_Free (block + HEADER_SIZE) s of Inl e \<Rightarrow> Some (Inl e) | Inr s' \<Rightarrow>
         if block = end_block then Some (Inr s')
         else free_loop (next b) end_block s'))"

declare free_loop.simps [code]

text \<open>Lines 231-246, the loop over the tags.\<close>

function FreeTags_loop :: "int \<Rightarrow> int \<Rightarrow> zone \<Rightarrow> (error + zone) option" where
  "FreeTags_loop lowtag hightag s =
     (if lowtag \<le> hightag then
        (if \<not> valid_tag lowtag then Some (Inl Undefined)
         else
           (let block = blockbytag s lowtag in
            if block = 0 then FreeTags_loop (lowtag + 1) hightag s
            else
              (case blocks s block of None \<Rightarrow> Some (Inl Undefined) | Some b \<Rightarrow>
               (case free_loop block (prev b) s of
                  None \<Rightarrow> None
                | Some (Inl e) \<Rightarrow> Some (Inl e)
                | Some (Inr s') \<Rightarrow> FreeTags_loop (lowtag + 1) hightag s'))))
      else Some (Inr s))"
  by pat_completeness auto
termination
  by (relation "measure (\<lambda>(lowtag, hightag, s). nat (hightag + 1 - lowtag))") auto

declare FreeTags_loop.simps [simp del]

definition Z_FreeTags :: "int \<Rightarrow> int \<Rightarrow> zone \<Rightarrow> (error + zone) option" where
  "Z_FreeTags lowtag hightag s =
     (let lowtag = (if lowtag \<le> PU_FREE then PU_FREE + 1 else lowtag);
          hightag = (if hightag > PU_CACHE then PU_CACHE else hightag)
      in FreeTags_loop lowtag hightag s)"

subsection \<open>Z\_Malloc\<close>

text \<open>Line 148: \<^verbatim>\<open>size = (size+CHUNK_SIZE-1) & ~(CHUNK_SIZE-1)\<close>.\<close>

definition round_chunk :: "size_t \<Rightarrow> size_t" where
  "round_chunk n = (n + CHUNK_SIZE - 1) AND NOT (CHUNK_SIZE - 1)"

text \<open>
  Line 150 and, negated, line 161:
  \<^verbatim>\<open>(free_memory + memory_size) < (int)(size + HEADER_SIZE)\<close>.
\<close>

definition short_of :: "size_t \<Rightarrow> zone \<Rightarrow> bool" where
  "short_of n s \<longleftrightarrow>
     sint (free_memory s + memory_size s) < sint (ucast (n + HEADER_SIZE) :: cint)"

text \<open>Lines 157-164, the proactive pass over the CACHE list.\<close>

partial_function (option) purge_loop ::
  "addr \<Rightarrow> addr \<Rightarrow> size_t \<Rightarrow> zone \<Rightarrow> (error + zone) option" where
  "purge_loop block end_block n s =
     (case blocks s block of None \<Rightarrow> Some (Inl Undefined) | Some b \<Rightarrow>
      (case Z_Free (block + HEADER_SIZE) s of Inl e \<Rightarrow> Some (Inl e) | Inr s' \<Rightarrow>
         if \<not> short_of n s' \<or> block = end_block then Some (Inr s')
         else purge_loop (next b) end_block n s'))"

declare purge_loop.simps [code]

text \<open>Lines 150-167.\<close>

definition purge_pass :: "size_t \<Rightarrow> zone \<Rightarrow> (error + zone) option" where
  "purge_pass n s =
     (if 0 < sint (memory_size s) \<and> short_of n s then
        (let block = blockbytag s PU_CACHE in
         if block \<noteq> 0 then
           (case blocks s block of None \<Rightarrow> Some (Inl Undefined) | Some b \<Rightarrow>
              purge_loop block (prev b) n s)
         else Some (Inr s))
      else Some (Inr s))"

text \<open>
  Lines 169-175, with \<open>n\<close> the number of bytes asked for, \<^verbatim>\<open>size + HEADER_SIZE\<close>
  as \<^verbatim>\<open>size_t\<close> computes it. \<open>env i\<close> is the answer of \<^verbatim>\<open>malloc\<close> to the
  \<open>i\<close>-th request of this call, 0 for NULL. A non-null answer is the address of a span
  of \<open>n\<close> bytes that is not held and ends below the top of the address space; the span
  is held from then on.
\<close>

partial_function (option) malloc_loop ::
  "(nat \<Rightarrow> addr) \<Rightarrow> nat \<Rightarrow> size_t \<Rightarrow> zone \<Rightarrow> (error + zone \<times> addr) option" where
  "malloc_loop env i n s =
     (let block = env i in
      if block \<noteq> 0 then
        (if spans s block = None \<and> unat block + unat n < 2 ^ 64
         then Some (Inr (s\<lparr>spans := (spans s)(block \<mapsto> n)\<rparr>, block))
         else Some (Inl BadAllocator))
      else if blockbytag s PU_CACHE = 0 then Some (Inl Fatal)
      else
        (case Z_FreeTags PU_CACHE PU_CACHE s of
           None \<Rightarrow> None
         | Some (Inl e) \<Rightarrow> Some (Inl e)
         | Some (Inr s') \<Rightarrow> malloc_loop env (Suc i) n s'))"

declare malloc_loop.simps [code]

text \<open>Writing through \<^verbatim>\<open>user\<close> when it is not NULL.\<close>

definition set_user :: "nat option \<Rightarrow> addr \<Rightarrow> zone \<Rightarrow> zone" where
  "set_user user v s = (case user of None \<Rightarrow> s | Some u \<Rightarrow> s\<lparr>slots := (slots s)(u := v)\<rparr>)"

text \<open>
  Lines 177-199, once \<^verbatim>\<open>malloc\<close> has answered with \<open>block\<close>. \<open>junk\<close> is what
  the fresh header holds before the source writes its fields. The fields are written
  into the span at \<open>block\<close>: when the span is shorter than the header (the request
  \<^verbatim>\<open>size + HEADER_SIZE\<close> has wrapped around to 0) the writes are out of bounds.
\<close>

definition register_block ::
  "size_t \<Rightarrow> int \<Rightarrow> nat option \<Rightarrow> memblock \<Rightarrow> addr \<Rightarrow> zone \<Rightarrow> error + zone \<times> addr" where
  "register_block n t user junk block s =
     (case spans s block of None \<Rightarrow> Inl Undefined | Some m \<Rightarrow>
        if m < sizeof_memblock then Inl Undefined
        else
          (case link_block t block (s\<lparr>blocks := (blocks s)(block \<mapsto> junk)\<rparr>) of
             Inl e \<Rightarrow> Inl e
           | Inr s1 \<Rightarrow>
               (case blocks s1 block of None \<Rightarrow> Inl Undefined | Some b \<Rightarrow>
                  (let s2 = s1\<lparr>free_memory := free_memory s1 - ucast n,
                               blocks := (blocks s1)(block \<mapsto> b\<lparr>size_b := n, tag := t mod 256\<rparr>)\<rparr>
                   in Inr (set_user user (block + HEADER_SIZE) s2, block + HEADER_SIZE)))))"

definition Z_Malloc ::
  "size_t \<Rightarrow> int \<Rightarrow> nat option \<Rightarrow> (nat \<Rightarrow> addr) \<Rightarrow> memblock \<Rightarrow> zone
     \<Rightarrow> (error + zone \<times> addr) option" where
  "Z_Malloc n t user env junk s =
     (if n = 0 then Some (Inr (set_user user 0 s, 0))
      else
        (let n = round_chunk n in
         (case purge_pass n s of
            None \<Rightarrow> None
          | Some (Inl e) \<Rightarrow> Some (Inl e)
          | Some (Inr s1) \<Rightarrow>
              (case malloc_loop env 0 (n + HEADER_SIZE) s1 of
                 None \<Rightarrow> None
               | Some (Inl e) \<Rightarrow> Some (Inl e)
               | Some (Inr (s2, block)) \<Rightarrow> Some (register_block n t user junk block s2)))))"

subsection \<open>Z\_ChangeTag\<close>

definition Z_ChangeTag :: "addr \<Rightarrow> int \<Rightarrow> zone \<Rightarrow> error + zone" where
  "Z_ChangeTag ptr t s =
     (let block = ptr - HEADER_SIZE in
      if ptr = 0 then Inr s
      else
        (case blocks s block of None \<Rightarrow> Inl Undefined | Some b \<Rightarrow>
           if t = tag b then Inr s
           else if \<not> valid_tag (tag b) then Inl Undefined
           else
             (case unlink block (blocks s) of None \<Rightarrow> Inl Undefined | Some bs \<Rightarrow>
              (case link_block t block
                      (s\<lparr>blockbytag := drop_head block b (blockbytag s), blocks := bs\<rparr>) of
                 Inl e \<Rightarrow> Inl e
               | Inr s1 \<Rightarrow>
                   (case blocks s1 block of None \<Rightarrow> Inl Undefined | Some b1 \<Rightarrow>
                      Inr (s1\<lparr>blocks := (blocks s1)(block \<mapsto> b1\<lparr>tag := t mod 256\<rparr>)\<rparr>))))))"

subsection \<open>Z\_Realloc and Z\_Calloc\<close>

text \<open>
  \<^verbatim>\<open>memcpy\<close> and \<^verbatim>\<open>memset\<close> on the byte memory; \<open>a - dst < n\<close> on words is
  \<open>a\<close> lying among the \<open>n\<close> bytes from \<open>dst\<close>. Both are called on payloads:
  \<open>in_payload s p off k\<close> says that the \<open>k\<close> bytes at offset \<open>off\<close> of the payload
  \<open>p\<close> lie in the span of the block of \<open>p\<close>, behind its header. A call that touches
  a byte outside is undefined; a call on no byte at all touches none.
\<close>

definition memcpy :: "addr \<Rightarrow> addr \<Rightarrow> size_t \<Rightarrow> (addr \<Rightarrow> byte) \<Rightarrow> (addr \<Rightarrow> byte)" where
  "memcpy dst src n m = (\<lambda>a. if a - dst < n then m (src + (a - dst)) else m a)"

definition memset :: "addr \<Rightarrow> byte \<Rightarrow> size_t \<Rightarrow> (addr \<Rightarrow> byte) \<Rightarrow> (addr \<Rightarrow> byte)" where
  "memset dst c n m = (\<lambda>a. if a - dst < n then c else m a)"

definition in_payload :: "zone \<Rightarrow> addr \<Rightarrow> size_t \<Rightarrow> size_t \<Rightarrow> bool" where
  "in_payload s p off k \<longleftrightarrow>
     k = 0 \<or>
     (case spans s (p - HEADER_SIZE) of
        None \<Rightarrow> False
      | Some m \<Rightarrow> unat HEADER_SIZE + unat off + unat k \<le> unat m)"

text \<open>
  Lines 300-306 of \<^verbatim>\<open>Z_Realloc\<close>: the copy from the old payload \<open>ptr\<close>, whose
  block records \<open>old\<close> bytes, into the new payload \<open>p\<close>, and the zero fill.
\<close>

definition copy_over :: "addr \<Rightarrow> addr \<Rightarrow> size_t \<Rightarrow> size_t \<Rightarrow> zone \<Rightarrow> error + zone" where
  "copy_over p ptr n old s =
     (if n \<le> old then
        (if in_payload s ptr 0 n \<and> in_payload s p 0 n
         then Inr (s\<lparr>mem := memcpy p ptr n (mem s)\<rparr>)
         else Inl Undefined)
      else
        (if in_payload s ptr 0 old \<and> in_payload s p 0 old \<and> in_payload s p old (n - old)
         then Inr (s\<lparr>mem := memset (p + old) 0 (n - old) (memcpy p ptr old (mem s))\<rparr>)
         else Inl Undefined))"

definition Z_Realloc ::
  "addr \<Rightarrow> size_t \<Rightarrow> int \<Rightarrow> nat option \<Rightarrow> (nat \<Rightarrow> addr) \<Rightarrow> memblock \<Rightarrow> zone
     \<Rightarrow> (error + zone \<times> addr) option" where
  "Z_Realloc ptr n t user env junk s =
     (case Z_Malloc n t user env junk s of
        None \<Rightarrow> None
      | Some (Inl e) \<Rightarrow> Some (Inl e)
      | Some (Inr (s1, p)) \<Rightarrow>
          (if ptr \<noteq> 0 then
             (case blocks s1 (ptr - HEADER_SIZE) of
                None \<Rightarrow> Some (Inl Undefined)
              | Some b \<Rightarrow>
                  (case copy_over p ptr n (size_b b) s1 of
                     Inl e \<Rightarrow> Some (Inl e)
                   | Inr s2 \<Rightarrow>
                       (case Z_Free ptr s2 of
                          Inl e \<Rightarrow> Some (Inl e)
                        | Inr s3 \<Rightarrow> Some (Inr (set_user user p s3, p)))))
           else Some (Inr (s1, p))))"

definition Z_Calloc ::
  "size_t \<Rightarrow> size_t \<Rightarrow> int \<Rightarrow> nat option \<Rightarrow> (nat \<Rightarrow> addr) \<Rightarrow> memblock \<Rightarrow> zone
     \<Rightarrow> (error + zone \<times> addr) option" where
  "Z_Calloc n1 n2 t user env junk s =
     (let n1 = n1 * n2 in
      if n1 \<noteq> 0 then
        (case Z_Malloc n1 t user env junk s of
           None \<Rightarrow> None
         | Some (Inl e) \<Rightarrow> Some (Inl e)
         | Some (Inr (s1, p)) \<Rightarrow>
             (if in_payload s1 p 0 n1 then Some (Inr (s1\<lparr>mem := memset p 0 n1 (mem s1)\<rparr>, p))
              else Some (Inl Undefined)))
      else Some (Inr (s, 0)))"

subsection \<open>Sequences of operations\<close>

datatype zop =
    Malloc size_t int "nat option" "nat \<Rightarrow> addr" memblock
  | Free addr
  | ChangeTag addr int
  | FreeTags int int

fun step :: "zop \<Rightarrow> zone \<Rightarrow> (error + zone) option" where
  "step (Malloc n t user env junk) s =
     (case Z_Malloc n t user env junk s of
        None \<Rightarrow> None
      | Some (Inl e) \<Rightarrow> Some (Inl e)
      | Some (Inr (s', p)) \<Rightarrow> Some (Inr s'))"
| "step (Free p) s = Some (Z_Free p s)"
| "step (ChangeTag p t) s = Some (Z_ChangeTag p t s)"
| "step (FreeTags lo hi) s = Z_FreeTags lo hi s"

fun run :: "zop list \<Rightarrow> zone \<Rightarrow> (error + zone) option" where
  "run [] s = Some (Inr s)"
| "run (x # xs) s =
     (case step x s of
        None \<Rightarrow> None
      | Some (Inl e) \<Rightarrow> Some (Inl e)
      | Some (Inr s') \<Rightarrow> run xs s')"

section \<open>Invariants and abstractions\<close>

text \<open>
  \<open>link bs a b\<close>: in the store \<open>bs\<close> the block \<open>a\<close> points forward to \<open>b\<close> and
  \<open>b\<close> points back to \<open>a\<close>. \<open>ring bs xs\<close>: the distinct addresses \<open>xs\<close> form one
  circular doubly-linked list, each linked to the next and the last to the first.
\<close>

definition link :: "heap \<Rightarrow> addr \<Rightarrow> addr \<Rightarrow> bool" where
  "link bs a b \<longleftrightarrow>
     (case bs a of None \<Rightarrow> False | Some ra \<Rightarrow> next ra = b) \<and>
     (case bs b of None \<Rightarrow> False | Some rb \<Rightarrow> prev rb = a)"

definition ring :: "heap \<Rightarrow> addr list \<Rightarrow> bool" where
  "ring bs xs \<longleftrightarrow>
     xs \<noteq> [] \<and> distinct xs \<and> successively (link bs) xs \<and> link bs (last xs) (hd xs)"

definition ptrs :: "memblock \<Rightarrow> addr \<times> addr" where
  "ptrs r = (next r, prev r)"

text \<open>
  What \<open>unlink\<close> and \<open>link_tail\<close> compute when every pointer they go through is held:
  the store with the two (or three) records changed.
\<close>

definition unlinked :: "addr \<Rightarrow> addr \<Rightarrow> heap \<Rightarrow> heap" where
  "unlinked p n bs = (\<lambda>x. map_option
      (\<lambda>r. r\<lparr>next := (if x = p then n else next r), prev := (if x = n then p else prev r)\<rparr>) (bs x))"

definition linked :: "addr \<Rightarrow> addr \<Rightarrow> addr \<Rightarrow> heap \<Rightarrow> heap" where
  "linked h t b bs = (\<lambda>x. map_option
      (\<lambda>r. if x = b then r\<lparr>next := h, prev := t\<rparr>
           else r\<lparr>next := (if x = t then b else next r),
                   prev := (if x = h then b else prev r)\<rparr>) (bs x))"

text \<open>
  \<open>live s t\<close> are the held blocks that carry tag \<open>t\<close>. \<open>bucket s t xs\<close>: the list
  \<open>xs\<close>, read from the head \<^verbatim>\<open>blockbytag[t]\<close>, is the ring of exactly these blocks
  (and the head is NULL when there is none). \<open>zone_inv\<close> is the invariant of the unit:
  no held header is at address 0 or has a null payload address, every stored tag indexes
  the array, and every tag has its bucket. \<open>same_outside T s s'\<close>: heads and blocks of
  the tags outside \<open>T\<close> are the same in both states.
\<close>

definition live :: "zone \<Rightarrow> int \<Rightarrow> addr set" where
  "live s t = {a. \<exists>b. blocks s a = Some b \<and> tag b = t}"

definition bucket :: "zone \<Rightarrow> int \<Rightarrow> addr list \<Rightarrow> bool" where
  "bucket s t xs \<longleftrightarrow>
     distinct xs \<and> set xs = live s t \<and>
     (if xs = [] then blockbytag s t = 0 else blockbytag s t = hd xs \<and> ring (blocks s) xs)"

definition zone_inv :: "zone \<Rightarrow> bool" where
  "zone_inv s \<longleftrightarrow>
     (\<forall>a b. blocks s a = Some b \<longrightarrow> a \<noteq> 0 \<and> a + HEADER_SIZE \<noteq> 0 \<and> valid_tag (tag b)) \<and>
     (\<forall>t. valid_tag t \<longrightarrow> (\<exists>xs. bucket s t xs))"

definition same_outside :: "int set \<Rightarrow> zone \<Rightarrow> zone \<Rightarrow> bool" where
  "same_outside T s s' \<longleftrightarrow>
     (\<forall>t. t \<notin> T \<longrightarrow> blockbytag s' t = blockbytag s t) \<and>
     (\<forall>x r. tag r \<notin> T \<longrightarrow> (blocks s' x = Some r \<longleftrightarrow> blocks s x = Some r))"

text \<open>
  \<open>drops s as s'\<close>: from \<open>s\<close> to \<open>s'\<close> exactly the blocks \<open>as\<close> were released, in
  this order, header and span; the other blocks keep size, tag and span, the budget is
  credited with the sizes released, and ceiling, memory and slots are unchanged.
  \<open>charge s a\<close> is the size of block \<open>a\<close> as \<^verbatim>\<open>free_memory += block->size\<close>
  adds it.
\<close>

definition info :: "memblock \<Rightarrow> size_t \<times> int" where
  "info r = (size_b r, tag r)"

definition charge :: "zone \<Rightarrow> addr \<Rightarrow> cint" where
  "charge s a = (case blocks s a of None \<Rightarrow> 0 | Some r \<Rightarrow> ucast (size_b r))"

definition drops :: "zone \<Rightarrow> addr list \<Rightarrow> zone \<Rightarrow> bool" where
  "drops s as s' \<longleftrightarrow>
     released s' = released s @ as \<and> memory_size s' = memory_size s \<and>
     mem s' = mem s \<and> slots s' = slots s \<and>
     (\<forall>x. map_option info (blocks s' x) =
        (if x \<in> set as then None else map_option info (blocks s x))) \<and>
     (\<forall>x. spans s' x = (if x \<in> set as then None else spans s x)) \<and>
     free_memory s' = free_memory s + sum_list (map (charge s) as)"

text \<open>
  \<open>span_inv\<close>: every header sits at the start of a held span, which was asked for
  with the recorded size plus \<^verbatim>\<open>HEADER_SIZE\<close>, a sum that did not wrap around.
\<close>

definition span_inv :: "zone \<Rightarrow> bool" where
  "span_inv s \<longleftrightarrow>
     (\<forall>a b. blocks s a = Some b \<longrightarrow>
        spans s a = Some (size_b b + HEADER_SIZE) \<and> unat (size_b b) + unat HEADER_SIZE < 2 ^ 64)"

text \<open>
  The comparison of line 150, as line 161 evaluates it after the blocks \<open>as\<close> have been
  freed.
\<close>

definition short_after :: "size_t \<Rightarrow> zone \<Rightarrow> addr list \<Rightarrow> bool" where
  "short_after n s as \<longleftrightarrow>
     sint (free_memory s + sum_list (map (charge s) as) + memory_size s)
       < sint (ucast (n + HEADER_SIZE) :: cint)"

text \<open>
  \<open>follow bs k a\<close> goes \<open>k\<close> times through \<^verbatim>\<open>next\<close> from \<open>a\<close>, and is \<open>None\<close>
  when it meets a pointer to a header that is not held. \<open>circular s t\<close> is the bucket
  invariant in the words of the specification.
\<close>

fun follow :: "heap \<Rightarrow> nat \<Rightarrow> addr \<Rightarrow> addr option" where
  "follow bs 0 a = Some a"
| "follow bs (Suc k) a = (case bs a of None \<Rightarrow> None | Some b \<Rightarrow> follow bs k (next b))"

definition circular :: "zone \<Rightarrow> int \<Rightarrow> bool" where
  "circular s t \<longleftrightarrow>
     (let h = blockbytag s t; N = card (live s t) in
      finite (live s t) \<and> (h \<noteq> 0 \<longleftrightarrow> N \<noteq> 0) \<and>
      (h \<noteq> 0 \<longrightarrow>
         follow (blocks s) N h = Some h \<and>
         inj_on (\<lambda>k. follow (blocks s) k h) {..<N} \<and>
         (\<lambda>k. follow (blocks s) k h) ` {..<N} = Some ` live s t) \<and>
      (\<forall>a\<in>live s t. \<exists>b c. blocks s a = Some b \<and> blocks s (next b) = Some c \<and> prev c = a))"

text \<open>What a fresh header holds in the examples.\<close>

definition junk0 :: memblock where
  "junk0 = \<lparr>next = 7, prev = 9, size_b = 1, tag = 3\<rparr>"

text \<open>
  Concrete inputs for the examples: the state left by \<^verbatim>\<open>Z_Init\<close> with zeroed
  memory and slots, an allocator that always answers with the same address, one that
  fails once and then answers, the state a run of operations ends in, and what an
  allocation returned.
\<close>

definition boot :: "cint \<Rightarrow> zone" where
  "boot c = Z_Init c (\<lambda>_. 0) (\<lambda>_. 0)"

definition grants :: "addr \<Rightarrow> nat \<Rightarrow> addr" where
  "grants a i = a"

definition refuses_once :: "addr \<Rightarrow> nat \<Rightarrow> addr" where
  "refuses_once a i = (if i = 0 then 0 else a)"

definition after :: "zop list \<Rightarrow> zone \<Rightarrow> zone" where
  "after ops s = (case run ops s of Some (Inr s') \<Rightarrow> s' | _ \<Rightarrow> s)"

definition returned :: "(error + zone \<times> addr) option \<Rightarrow> (zone \<times> addr) option" where
  "returned r = (case r of Some (Inr x) \<Rightarrow> Some x | _ \<Rightarrow> None)"

definition recorded_size :: "zone \<times> addr \<Rightarrow> size_t option" where
  "recorded_size x = map_option size_b (blocks (fst x) (snd x - HEADER_SIZE))"

text \<open>
  What an allocation returned is usable for \<open>n\<close> bytes: the payload address is not
  null and the \<open>n\<close> bytes from it lie in the span of its block.
\<close>

definition usable :: "size_t \<Rightarrow> zone \<times> addr \<Rightarrow> bool" where
  "usable n x \<longleftrightarrow> snd x \<noteq> 0 \<and> in_payload (fst x) (snd x) 0 n"

section \<open>Proofs\<close>

subsection \<open>Rings in the store\<close>

lemma HEADER_SIZE_32: "HEADER_SIZE = 32"
  by (simp add: HEADER_SIZE_def sizeof_memblock_def CHUNK_SIZE_def)

lemma successively_distinct_mono:
  assumes "successively P xs" and "distinct xs"
    and "\<And>x y. x \<in> set (butlast xs) \<Longrightarrow> y \<in> set (tl xs) \<Longrightarrow> P x y \<Longrightarrow> Q x y"
  shows "successively Q xs"
  using assms
proof (induction P xs rule: successively.induct)
  case (3 P x y xs)
  have "successively Q (y # xs)"
  proof (rule 3)
    show "successively P (y # xs)" using 3 by simp
    show "distinct (y # xs)" using 3 by simp
    fix u v assume "u \<in> set (butlast (y # xs))" "v \<in> set (tl (y # xs))" "P u v"
    then show "Q u v" using 3(4)[of u v] by (auto split: if_splits)
  qed
  moreover have "Q x y" using 3 by simp
  ultimately show ?case by simp
qed simp_all

lemma ring_rotate:
  assumes "ring bs (ys @ zs)"
  shows "ring bs (zs @ ys)"
proof (cases "ys = [] \<or> zs = []")
  case True
  then show ?thesis using assms by auto
next
  case False
  then show ?thesis using assms
    by (auto simp: ring_def successively_append_iff)
qed

lemma ring_cong:
  assumes "ring bs xs"
    and "\<And>x. x \<in> set xs \<Longrightarrow> map_option ptrs (bs' x) = map_option ptrs (bs x)"
  shows "ring bs' xs"
proof -
  have l: "link bs' x y = link bs x y" if "x \<in> set xs" "y \<in> set xs" for x y
    using assms(2)[OF that(1)] assms(2)[OF that(2)]
    by (auto simp: link_def ptrs_def split: option.splits)
  have "successively (link bs') xs"
    using assms(1) by (auto simp: ring_def l intro: successively_mono)
  moreover have "link bs' (last xs) (hd xs)"
    using assms(1) by (simp add: ring_def l)
  ultimately show ?thesis using assms(1) by (simp add: ring_def)
qed

lemma ring_live: "ring bs xs \<Longrightarrow> x \<in> set xs \<Longrightarrow> \<exists>r. bs x = Some r"
proof -
  assume r: "ring bs xs" and x: "x \<in> set xs"
  obtain ys zs where xs: "xs = ys @ x # zs" using x by (auto dest: split_list)
  have "ring bs (x # zs @ ys)" using ring_rotate[of bs ys "x # zs"] r xs by simp
  then have "link bs (last (x # zs @ ys)) x" by (simp add: ring_def)
  then show ?thesis by (auto simp: link_def split: option.splits)
qed

lemma unlink_closed:
  assumes "bs a = Some b" "bs (prev b) = Some p" "bs (next b) = Some n"
  shows "unlink a bs = Some (unlinked (prev b) (next b) bs)"
proof -
  have "unlink a bs = Some ((bs(prev b \<mapsto> p\<lparr>next := next b\<rparr>))
      (next b \<mapsto> (the ((bs(prev b \<mapsto> p\<lparr>next := next b\<rparr>)) (next b)))\<lparr>prev := prev b\<rparr>))"
    using assms by (auto simp: unlink_def Let_def)
  also have "(bs(prev b \<mapsto> p\<lparr>next := next b\<rparr>))
      (next b \<mapsto> (the ((bs(prev b \<mapsto> p\<lparr>next := next b\<rparr>)) (next b)))\<lparr>prev := prev b\<rparr>)
      = unlinked (prev b) (next b) bs"
    using assms by (auto simp: unlinked_def fun_eq_iff option.map_ident)
  finally show ?thesis .
qed

lemma ring_head_links:
  assumes "ring bs (a # ws)" "bs a = Some b" "ws \<noteq> []"
  shows "next b = hd ws" "prev b = last ws"
  using assms by (auto simp: ring_def link_def successively_Cons split: option.splits)

lemma ring_single_links:
  assumes "ring bs [a]" "bs a = Some b"
  shows "next b = a" "prev b = a"
  using assms by (auto simp: ring_def link_def split: option.splits)

lemma ring_unlink_head:
  assumes r: "ring bs (a # ws)" and ws: "ws \<noteq> []"
  shows "ring (unlinked (last ws) (hd ws) bs) ws"
proof -
  let ?bs = "unlinked (last ws) (hd ws) bs"
  have d: "distinct ws" "a \<notin> set ws" using r by (auto simp: ring_def)
  have s: "successively (link bs) ws" and la: "link bs (last ws) a" and ah: "link bs a (hd ws)"
    using r ws by (auto simp: ring_def successively_Cons)
  have "successively (link ?bs) ws"
  proof (rule successively_distinct_mono[OF s d(1)])
    fix x y assume x: "x \<in> set (butlast ws)" and y: "y \<in> set (tl ws)" and l: "link bs x y"
    have "x \<noteq> last ws" using x d(1) ws
      by (metis append_butlast_last_id distinct_append disjoint_iff list.set_intros(1) distinct.simps(2))
    moreover have "y \<noteq> hd ws" using y d(1) ws
      by (metis distinct.simps(2) list.collapse)
    ultimately show "link ?bs x y" using l
      by (auto simp: link_def unlinked_def split: option.splits)
  qed
  moreover have "link ?bs (last ws) (hd ws)"
    using la ah by (auto simp: link_def unlinked_def split: option.splits)
  ultimately show ?thesis using d ws by (simp add: ring_def)
qed

lemma link_tail_closed:
  assumes "bs h = Some rh" "bs (prev rh) = Some rt" "bs b = Some rb" "b \<noteq> h" "b \<noteq> prev rh"
  shows "link_tail h b bs = Some (linked h (prev rh) b bs)"
proof -
  let ?bs1 = "bs(prev rh \<mapsto> rt\<lparr>next := b\<rparr>)"
  have h1: "\<exists>r. ?bs1 h = Some r \<and> prev r = prev rh" using assms by auto
  then obtain r1 where r1: "?bs1 h = Some r1" "prev r1 = prev rh" by blast
  have b1: "?bs1 b = Some rb" using assms by auto
  let ?bs3 = "?bs1(b \<mapsto> rb\<lparr>prev := prev rh, next := h\<rparr>)"
  have h3: "?bs3 h = Some r1" using r1 assms by auto
  have "link_tail h b bs = Some (?bs3(h \<mapsto> r1\<lparr>prev := b\<rparr>))"
    using assms r1 b1 h3 by (simp add: link_tail_def Let_def)
  also have "?bs3(h \<mapsto> r1\<lparr>prev := b\<rparr>) = linked h (prev rh) b bs"
    using assms r1 by (auto simp: linked_def fun_eq_iff option.map_ident split: if_splits)
  finally show ?thesis .
qed

lemma linked_self:
  assumes "bs b = Some rb"
  shows "linked b b b bs = bs(b \<mapsto> rb\<lparr>next := b, prev := b\<rparr>)"
  using assms by (auto simp: linked_def fun_eq_iff option.map_ident)

lemma ring_link:
  assumes r: "ring bs xs" and b: "b \<notin> set xs" and lb: "bs b = Some rb"
  shows "ring (linked (hd xs) (last xs) b bs) (xs @ [b])"
proof -
  let ?bs = "linked (hd xs) (last xs) b bs"
  have d: "distinct xs" "xs \<noteq> []" using r by (auto simp: ring_def)
  have s: "successively (link bs) xs" and lh: "link bs (last xs) (hd xs)"
    using r by (auto simp: ring_def)
  have hb: "hd xs \<noteq> b" "last xs \<noteq> b" using b d by auto
  have "successively (link ?bs) xs"
  proof (rule successively_distinct_mono[OF s d(1)])
    fix x y assume x: "x \<in> set (butlast xs)" and y: "y \<in> set (tl xs)" and l: "link bs x y"
    have "x \<noteq> last xs" using x d
      by (metis append_butlast_last_id distinct_append disjoint_iff list.set_intros(1))
    moreover have "y \<noteq> hd xs" using y d
      by (metis distinct.simps(2) list.collapse)
    moreover have "x \<noteq> b" "y \<noteq> b" using x y b
      by (auto dest: in_set_butlastD list.set_sel(2)[rotated])
    ultimately show "link ?bs x y" using l
      by (auto simp: link_def linked_def split: option.splits)
  qed
  moreover have "link ?bs (last xs) b"
    using lh lb hb by (auto simp: link_def linked_def split: option.splits)
  moreover have "link ?bs b (hd xs)"
    using lh lb hb by (auto simp: link_def linked_def split: option.splits)
  ultimately show ?thesis using d b
    by (simp add: ring_def successively_append_iff)
qed

lemma ring_single:
  assumes "bs b = Some rb"
  shows "ring (linked b b b bs) [b]"
  using assms by (auto simp: ring_def link_def linked_def)

subsection \<open>Buckets\<close>

lemma same_outside_refl: "same_outside T s s"
  by (simp add: same_outside_def)

lemma same_outside_trans:
  "same_outside T s s' \<Longrightarrow> same_outside T' s' s'' \<Longrightarrow> same_outside (T \<union> T') s s''"
  by (simp add: same_outside_def)

lemma same_outside_mono: "same_outside T s s' \<Longrightarrow> T \<subseteq> T' \<Longrightarrow> same_outside T' s s'"
  by (auto simp: same_outside_def)

lemma live_same_outside: "same_outside T s s' \<Longrightarrow> t \<notin> T \<Longrightarrow> live s' t = live s t"
  by (auto simp: same_outside_def live_def)

lemma bucket_same_outside:
  assumes so: "same_outside T s s'" and t: "t \<notin> T" and bk: "bucket s t xs"
  shows "bucket s' t xs"
proof -
  have lv: "live s' t = live s t" using so t by (rule live_same_outside)
  have hd: "blockbytag s' t = blockbytag s t" using so t by (simp add: same_outside_def)
  have eq: "blocks s' x = blocks s x" if "x \<in> set xs" for x
  proof -
    from that bk obtain r where "blocks s x = Some r" "tag r = t"
      by (auto simp: bucket_def live_def)
    then show ?thesis using so t by (simp add: same_outside_def)
  qed
  have "ring (blocks s') xs" if "xs \<noteq> []"
    using bk that by (auto simp: bucket_def eq intro: ring_cong)
  then show ?thesis using bk lv hd by (simp add: bucket_def)
qed

lemma bucket_unlink_all:
  assumes r: "ring bs (ys @ a # zs)" and la: "bs a = Some b"
  shows "unlink a bs = Some (unlinked (prev b) (next b) bs) \<and>
      (ys @ zs \<noteq> [] \<longrightarrow> ring (unlinked (prev b) (next b) bs) (ys @ zs)) \<and>
      prev b \<in> set (ys @ a # zs) \<and> next b \<in> set (ys @ a # zs) \<and>
      (a = next b) = (ys @ zs = []) \<and> (ys @ zs \<noteq> [] \<longrightarrow> next b = hd (zs @ ys))"
proof (cases "zs @ ys = []")
  case True
  have rr: "ring bs (a # zs @ ys)" using ring_rotate[OF r] by simp
  then have "ring bs [a]" using True by simp
  from ring_single_links[OF this la] have sl: "next b = a" "prev b = a" .
  have "unlink a bs = Some (unlinked (prev b) (next b) bs)"
    by (rule unlink_closed[where bs = bs and a = a and b = b and p = b and n = b])
       (simp_all add: sl la)
  with sl True show ?thesis by auto
next
  case False
  have rr: "ring bs (a # zs @ ys)" using ring_rotate[OF r] by simp
  from ring_head_links[OF rr la False]
  have nx: "next b = hd (zs @ ys)" and pv: "prev b = last (zs @ ys)" by auto
  have mem: "hd (zs @ ys) \<in> set (zs @ ys)" "last (zs @ ys) \<in> set (zs @ ys)"
    using False hd_in_set[of "zs @ ys"] last_in_set[of "zs @ ys"] by blast+
  have mem': "hd (zs @ ys) \<in> set (ys @ a # zs)" "last (zs @ ys) \<in> set (ys @ a # zs)"
    using mem by auto
  obtain rn rp where lv: "bs (next b) = Some rn" "bs (prev b) = Some rp"
    using ring_live[OF rr, of "next b"] ring_live[OF rr, of "prev b"] mem nx pv
    by auto
  have u: "unlink a bs = Some (unlinked (prev b) (next b) bs)"
    by (rule unlink_closed[OF la lv(2) lv(1)])
  have "ring (unlinked (prev b) (next b) bs) (zs @ ys)"
    using ring_unlink_head[OF rr False] nx pv by simp
  then have r2: "ring (unlinked (prev b) (next b) bs) (ys @ zs)"
    by (rule ring_rotate)
  have "a \<notin> set (zs @ ys)" using rr by (simp add: ring_def)
  then have ne: "a \<noteq> next b" using mem nx by metis
  have ne2: "ys @ zs \<noteq> []" using False by auto
  show ?thesis
    using u r2 ne nx pv mem' ne2 by simp
qed

lemma bucket_unlink:
  assumes r: "ring bs (ys @ a # zs)" and la: "bs a = Some b"
  shows "unlink a bs = Some (unlinked (prev b) (next b) bs)"
    and "ys @ zs \<noteq> [] \<Longrightarrow> ring (unlinked (prev b) (next b) bs) (ys @ zs)"
    and "prev b \<in> set (ys @ a # zs)" and "next b \<in> set (ys @ a # zs)"
    and "(a = next b) = (ys @ zs = [])"
    and "ys @ zs \<noteq> [] \<Longrightarrow> next b = hd (zs @ ys)"
  using bucket_unlink_all[OF r la] by blast+

lemma drop_head_bucket:
  assumes r: "ring bs (ys @ a # zs)" and la: "bs a = Some b"
    and h: "heads (tag b) = hd (ys @ a # zs)"
  shows "drop_head a b heads = heads(tag b := (if ys @ zs = [] then 0 else hd (ys @ zs)))"
proof (cases "ys @ zs = []")
  case True
  then show ?thesis using bucket_unlink(5)[OF r la] by (simp add: drop_head_def)
next
  case False
  have ne: "a \<noteq> next b" using bucket_unlink(5)[OF r la] False by simp
  have nx: "next b = hd (zs @ ys)" using bucket_unlink(6)[OF r la False] .
  have d: "distinct (ys @ a # zs)" using r by (simp add: ring_def)
  show ?thesis
  proof (cases ys)
    case Nil
    then show ?thesis using ne nx h False by (simp add: drop_head_def)
  next
    case (Cons y ys')
    then have "heads (tag b) \<noteq> a" using h d by auto
    moreover have "heads (tag b) = hd (ys @ zs)" using h Cons by simp
    ultimately show ?thesis using ne False by (auto simp: drop_head_def)
  qed
qed

subsection \<open>Z\_Free on a block of a bucket\<close>

lemma drops_refl: "drops s [] s"
  by (simp add: drops_def)

lemma drops_trans:
  assumes "drops s as s'" "drops s' bs s''" "set as \<inter> set bs = {}"
  shows "drops s (as @ bs) s''"
proof -
  have "charge s' x = charge s x" if "x \<in> set bs" for x
  proof -
    have "x \<notin> set as" using that assms(3) by auto
    then have "map_option info (blocks s' x) = map_option info (blocks s x)"
      using assms(1) by (simp add: drops_def)
    then show ?thesis
      by (cases "blocks s' x"; cases "blocks s x") (auto simp: charge_def info_def)
  qed
  then have "map (charge s') bs = map (charge s) bs" by simp
  then have "sum_list (map (charge s') bs) = sum_list (map (charge s) bs)"
    by (rule arg_cong)
  then show ?thesis using assms(1,2) by (auto simp: drops_def)
qed

lemma span_inv_drops:
  assumes "span_inv s" "drops s as s'"
  shows "span_inv s'"
  unfolding span_inv_def
proof (intro allI impI)
  fix a and b' :: memblock assume h: "blocks s' a = Some b'"
  have i: "map_option info (blocks s' a) = (if a \<in> set as then None else map_option info (blocks s a))"
    and sp: "spans s' a = (if a \<in> set as then None else spans s a)"
    using assms(2) by (simp_all add: drops_def)
  from h i have na: "a \<notin> set as" by (auto split: if_splits)
  with h i obtain b where b: "blocks s a = Some b" "size_b b = size_b b'"
    by (cases "blocks s a") (auto simp: info_def)
  have "spans s a = Some (size_b b + HEADER_SIZE) \<and> unat (size_b b) + unat HEADER_SIZE < 2 ^ 64"
    using assms(1) b(1) by (simp add: span_inv_def)
  then show "spans s' a = Some (size_b b' + HEADER_SIZE) \<and> unat (size_b b') + unat HEADER_SIZE < 2 ^ 64"
    using sp na b(2) by simp
qed

lemma span_invD:
  "span_inv s \<Longrightarrow> blocks s a = Some b \<Longrightarrow>
     spans s a = Some (size_b b + HEADER_SIZE) \<and> unat (size_b b) + unat HEADER_SIZE < 2 ^ 64"
  by (simp add: span_inv_def)

lemma unlinked_other: "x \<noteq> p \<Longrightarrow> x \<noteq> n \<Longrightarrow> unlinked p n bs x = bs x"
  by (simp add: unlinked_def option.map_ident)

lemma unlinked_info: "map_option info (unlinked p n bs x) = map_option info (bs x)"
  by (cases "bs x") (simp_all add: unlinked_def info_def)

lemma unlinked_tag: "unlinked p n bs x = Some r \<Longrightarrow> \<exists>r0. bs x = Some r0 \<and> tag r0 = tag r \<and> size_b r0 = size_b r"
  by (cases "bs x") (auto simp: unlinked_def)

lemma unlinked_live: "bs x = Some r0 \<Longrightarrow> \<exists>r. unlinked p n bs x = Some r \<and> tag r = tag r0 \<and> size_b r = size_b r0"
  by (auto simp: unlinked_def)

lemma unlinked_tag_iff:
  "(\<exists>r. unlinked p n bs x = Some r \<and> tag r = t) \<longleftrightarrow> (\<exists>r. bs x = Some r \<and> tag r = t)"
  by (cases "bs x") (auto simp: unlinked_def)

lemma zone_invD:
  "zone_inv s \<Longrightarrow> blocks s a = Some b \<Longrightarrow> a \<noteq> 0 \<and> a + HEADER_SIZE \<noteq> 0 \<and> valid_tag (tag b)"
  by (simp add: zone_inv_def)

lemma payload_header [simp]: "a + HEADER_SIZE - HEADER_SIZE = a"
  by simp

lemma Z_Free_bucket:
  assumes inv: "zone_inv s" and la: "blocks s a = Some b"
    and bk: "bucket s (tag b) (ys @ a # zs)"
  shows "\<exists>s'. Z_Free (a + HEADER_SIZE) s = Inr s' \<and> zone_inv s' \<and> bucket s' (tag b) (ys @ zs) \<and>
           same_outside {tag b} s s' \<and> drops s [a] s' \<and> blockbytag s' (tag b) = (if ys @ zs = [] then 0 else hd (ys @ zs))"
proof -
  let ?t = "tag b"
  let ?U = "unlinked (prev b) (next b) (blocks s)"
  let ?H = "(blockbytag s)(?t := (if ys @ zs = [] then 0 else hd (ys @ zs)))"
  let ?s' = "s\<lparr>blockbytag := ?H, free_memory := free_memory s + ucast (size_b b),
               blocks := ?U(a := None), spans := (spans s)(a := None),
               released := released s @ [a]\<rparr>"
  have a0: "a \<noteq> 0" "a + HEADER_SIZE \<noteq> 0" "valid_tag ?t"
    using inv la by (auto simp: zone_inv_def)
  have r: "ring (blocks s) (ys @ a # zs)" and hd: "blockbytag s ?t = hd (ys @ a # zs)"
    and d: "distinct (ys @ a # zs)" and lv: "set (ys @ a # zs) = live s ?t"
    using bk by (auto simp: bucket_def)
  note bu = bucket_unlink[OF r la]
  have dh: "drop_head a b (blockbytag s) = ?H" by (rule drop_head_bucket[where bs = "blocks s" and heads = "blockbytag s" and ys = ys and zs = zs, OF r la hd])
  obtain b' where b': "?U a = Some b'" "size_b b' = size_b b"
    using unlinked_live[of "blocks s" a b "prev b" "next b"] la by auto
  have zf: "Z_Free (a + HEADER_SIZE) s = Inr ?s'"
    using a0 la bu(1) dh b' by (simp add: Z_Free_def Let_def)
  have pn: "prev b \<in> live s ?t" "next b \<in> live s ?t" using bu(3,4) lv by auto
  have other: "?U x = blocks s x" if "blocks s x = Some r" "tag r \<noteq> ?t" for x r
  proof -
    have "x \<noteq> prev b" "x \<noteq> next b" using pn that by (auto simp: live_def)
    then show ?thesis by (rule unlinked_other)
  qed
  have so: "same_outside {?t} s ?s'"
    unfolding same_outside_def
  proof (intro conjI allI impI)
    fix t assume "t \<notin> {?t}" then show "blockbytag ?s' t = blockbytag s t" by simp
  next
    fix x and r :: memblock assume tr: "tag r \<notin> {?t}"
    show "blocks ?s' x = Some r \<longleftrightarrow> blocks s x = Some r"
    proof
      assume l: "blocks ?s' x = Some r"
      then have xa: "x \<noteq> a" and u: "?U x = Some r" by (auto split: if_splits)
      from unlinked_tag[of "prev b" "next b" "blocks s" x r] u
      obtain r0 where r0: "blocks s x = Some r0" "tag r0 = tag r" by blast
      then have "?U x = blocks s x" using other tr by simp
      then show "blocks s x = Some r" using u by simp
    next
      assume l: "blocks s x = Some r"
      then have "x \<noteq> a" using la tr by auto
      moreover have "?U x = blocks s x" using other l tr by simp
      ultimately show "blocks ?s' x = Some r" using l by simp
    qed
  qed
  have lv': "live ?s' ?t = set (ys @ zs)"
  proof -
    have "live ?s' ?t = live s ?t - {a}"
      by (auto simp: live_def unlinked_tag_iff)
    then show ?thesis using lv[symmetric] d by auto
  qed
  have bk': "bucket ?s' ?t (ys @ zs)"
  proof -
    have "ring (?U(a := None)) (ys @ zs)" if ne: "ys @ zs \<noteq> []"
    proof (rule ring_cong[OF bu(2)[OF ne]])
      fix x assume "x \<in> set (ys @ zs)"
      then have "x \<noteq> a" using d by auto
      then show "map_option ptrs ((?U(a := None)) x) = map_option ptrs (?U x)" by simp
    qed
    then show ?thesis using d lv' by (auto simp: bucket_def)
  qed
  have inv': "zone_inv ?s'"
    unfolding zone_inv_def
  proof (intro conjI allI impI)
    fix x r assume "blocks ?s' x = Some r"
    then have "?U x = Some r" by (auto split: if_splits)
    from unlinked_tag[of "prev b" "next b" "blocks s" x r] this
    obtain r0 where "blocks s x = Some r0" "tag r0 = tag r" by blast
    then have "x \<noteq> 0 \<and> x + HEADER_SIZE \<noteq> 0 \<and> valid_tag (tag r)"
      using zone_invD[OF inv, of x r0] by simp
    then show "x \<noteq> 0" "x + HEADER_SIZE \<noteq> 0" "valid_tag (tag r)" by auto
  next
    fix t assume vt: "valid_tag t"
    show "\<exists>xs. bucket ?s' t xs"
    proof (cases "t = ?t")
      case True then show ?thesis using bk' by auto
    next
      case False
      obtain xs where "bucket s t xs" using inv vt by (auto simp: zone_inv_def)
      then have "bucket ?s' t xs" using bucket_same_outside[OF so] False by simp
      then show ?thesis ..
    qed
  qed
  have dr: "drops s [a] ?s'"
    using la by (auto simp: drops_def charge_def unlinked_info)
  have "blockbytag ?s' ?t = (if ys @ zs = [] then 0 else hd (ys @ zs))" by simp
  with zf inv' bk' so dr show ?thesis by blast
qed

subsection \<open>Evicting along a bucket\<close>

lemma bucket_live:
  assumes "bucket s t xs" "x \<in> set xs"
  shows "\<exists>b. blocks s x = Some b \<and> tag b = t"
  using assms by (auto simp: bucket_def live_def)

lemma bucket_unique_empty: "bucket s t [] \<Longrightarrow> bucket s t xs \<Longrightarrow> xs = []"
  by (auto simp: bucket_def)

lemma free_loop_bucket:
  assumes "zone_inv s" "bucket s t xs" "xs \<noteq> []"
  shows "\<exists>s'. free_loop (hd xs) (last xs) s = Some (Inr s') \<and> zone_inv s' \<and> bucket s' t [] \<and>
           same_outside {t} s s' \<and> drops s xs s'"
  using assms
proof (induction xs arbitrary: s)
  case Nil
  then show ?case by simp
next
  case (Cons a rest)
  obtain b where la: "blocks s a = Some b" and tb: "tag b = t"
    using bucket_live[OF Cons.prems(2), of a] by auto
  have bk: "bucket s (tag b) ([] @ a # rest)" using Cons.prems(2) tb by simp
  from Z_Free_bucket[OF Cons.prems(1) la bk]
  obtain s1 where zf: "Z_Free (a + HEADER_SIZE) s = Inr s1" and inv1: "zone_inv s1"
    and bk1: "bucket s1 t rest" and so1: "same_outside {t} s s1" and dr1: "drops s [a] s1"
    using tb by auto
  have d: "distinct (a # rest)" using Cons.prems(2) by (simp add: bucket_def)
  show ?case
  proof (cases "rest = []")
    case True
    have "free_loop (hd (a # rest)) (last (a # rest)) s = Some (Inr s1)"
      using True la zf by (subst free_loop.simps) simp
    then show ?thesis using inv1 bk1 so1 dr1 True by auto
  next
    case False
    have ne: "a \<noteq> last (a # rest)" using d False by auto
    have r: "ring (blocks s) ([] @ a # rest)" using Cons.prems(2) by (simp add: bucket_def)
    have nx: "next b = hd rest" using bucket_unlink(6)[OF r la] False by simp
    from Cons.IH[OF inv1 bk1 False]
    obtain s' where fl: "free_loop (hd rest) (last rest) s1 = Some (Inr s')" and inv': "zone_inv s'"
      and bk': "bucket s' t []" and so': "same_outside {t} s1 s'" and dr': "drops s1 rest s'"
      by blast
    have "free_loop (hd (a # rest)) (last (a # rest)) s = Some (Inr s')"
      using la zf ne nx fl False by (subst free_loop.simps) simp
    moreover have "same_outside {t} s s'" using same_outside_trans[OF so1 so'] by simp
    moreover have "drops s (a # rest) s'" using drops_trans[OF dr1 dr'] d by simp
    ultimately show ?thesis using inv' bk' by blast
  qed
qed

lemma short_of_drops: "drops s as s' \<Longrightarrow> short_of n s' = short_after n s as"
  by (simp add: drops_def short_of_def short_after_def)

lemma charge_drops: "drops s as s' \<Longrightarrow> x \<notin> set as \<Longrightarrow> charge s' x = charge s x"
proof -
  assume "drops s as s'" "x \<notin> set as"
  then have "map_option info (blocks s' x) = map_option info (blocks s x)"
    by (simp add: drops_def)
  then show ?thesis
    by (cases "blocks s' x"; cases "blocks s x") (auto simp: charge_def info_def)
qed

lemma purge_loop_bucket:
  assumes "zone_inv s" "bucket s t xs" "xs \<noteq> []"
  shows "\<exists>s' k. purge_loop (hd xs) (last xs) n s = Some (Inr s') \<and> 0 < k \<and> k \<le> length xs \<and>
           zone_inv s' \<and> bucket s' t (drop k xs) \<and> same_outside {t} s s' \<and>
           drops s (take k xs) s' \<and>
           (k < length xs \<longrightarrow> \<not> short_after n s (take k xs)) \<and>
           (\<forall>j. 0 < j \<and> j < k \<longrightarrow> short_after n s (take j xs))"
  using assms
proof (induction xs arbitrary: s)
  case Nil
  then show ?case by simp
next
  case (Cons a rest)
  obtain b where la: "blocks s a = Some b" and tb: "tag b = t"
    using bucket_live[OF Cons.prems(2), of a] by auto
  have bk: "bucket s (tag b) ([] @ a # rest)" using Cons.prems(2) tb by simp
  from Z_Free_bucket[OF Cons.prems(1) la bk]
  obtain s1 where zf: "Z_Free (a + HEADER_SIZE) s = Inr s1" and inv1: "zone_inv s1"
    and bk1: "bucket s1 t rest" and so1: "same_outside {t} s s1" and dr1: "drops s [a] s1"
    using tb by auto
  have d: "distinct (a # rest)" using Cons.prems(2) by (simp add: bucket_def)
  have sh1: "short_of n s1 = short_after n s [a]" using short_of_drops[OF dr1] .
  show ?case
  proof (cases "\<not> short_of n s1 \<or> rest = []")
    case True
    have "a = last (a # rest) \<longleftrightarrow> rest = []" using d by auto
    then have "purge_loop (hd (a # rest)) (last (a # rest)) n s = Some (Inr s1)"
      using True la zf by (subst purge_loop.simps) auto
    moreover have "1 < length (a # rest) \<longrightarrow> \<not> short_after n s (take 1 (a # rest))"
      using True sh1 by auto
    ultimately show ?thesis using inv1 bk1 so1 dr1
      by (intro exI[of _ s1] exI[of _ 1]) simp
  next
    case False
    then have ne: "rest \<noteq> []" and sh: "short_of n s1" by auto
    have nl: "a \<noteq> last (a # rest)" using d ne by auto
    have r: "ring (blocks s) ([] @ a # rest)" using Cons.prems(2) by (simp add: bucket_def)
    have nx: "next b = hd rest" using bucket_unlink(6)[OF r la] ne by simp
    from Cons.IH[OF inv1 bk1 ne]
    obtain s' k where pl: "purge_loop (hd rest) (last rest) n s1 = Some (Inr s')"
      and k: "0 < k" "k \<le> length rest" and inv': "zone_inv s'"
      and bk': "bucket s' t (drop k rest)" and so': "same_outside {t} s1 s'"
      and dr': "drops s1 (take k rest) s'"
      and stop: "k < length rest \<longrightarrow> \<not> short_after n s1 (take k rest)"
      and go: "\<forall>j. 0 < j \<and> j < k \<longrightarrow> short_after n s1 (take j rest)"
      by blast
    have conv: "short_after n s1 (take j rest) = short_after n s (take (Suc j) (a # rest))" for j
    proof -
      have "charge s1 x = charge s x" if "x \<in> set (take j rest)" for x
      proof -
        have "x \<in> set rest" using that by (rule in_set_takeD)
        then have "x \<notin> set [a]" using d by auto
        then show ?thesis by (rule charge_drops[OF dr1])
      qed
      then have "map (charge s1) (take j rest) = map (charge s) (take j rest)" by simp
      then have "sum_list (map (charge s1) (take j rest)) = sum_list (map (charge s) (take j rest))"
        by (rule arg_cong)
      moreover have "free_memory s1 = free_memory s + charge s a" "memory_size s1 = memory_size s"
        using dr1 by (simp_all add: drops_def)
      ultimately show ?thesis by (simp add: short_after_def add.assoc)
    qed
    have "purge_loop (hd (a # rest)) (last (a # rest)) n s = Some (Inr s')"
      using la zf nl nx pl sh ne by (subst purge_loop.simps) simp
    moreover have "same_outside {t} s s'" using same_outside_trans[OF so1 so'] by simp
    moreover have "drops s (take (Suc k) (a # rest)) s'"
    proof -
      have "set [a] \<inter> set (take k rest) = {}" using d by (auto dest: in_set_takeD)
      from drops_trans[OF dr1 dr' this] show ?thesis by simp
    qed
    moreover have "Suc k < length (a # rest) \<longrightarrow> \<not> short_after n s (take (Suc k) (a # rest))"
      using stop conv by simp
    moreover have "\<forall>j. 0 < j \<and> j < Suc k \<longrightarrow> short_after n s (take j (a # rest))"
    proof (intro allI impI)
      fix j assume j: "0 < j \<and> j < Suc k"
      show "short_after n s (take j (a # rest))"
      proof (cases "j = 1")
        case True
        then show ?thesis using sh sh1 by simp
      next
        case False
        then obtain j' where j': "j = Suc j'" "0 < j'" "j' < k" using j by (cases j) auto
        then show ?thesis using go conv by simp
      qed
    qed
    ultimately show ?thesis using inv' bk' k
      by (intro exI[of _ s'] exI[of _ "Suc k"]) simp
  qed
qed

subsection \<open>The loop over the tags\<close>

lemma ring_head_prev:
  assumes "ring bs xs" "bs (hd xs) = Some b"
  shows "prev b = last xs"
  using assms by (auto simp: ring_def link_def split: option.splits)

lemma bucket_disjoint:
  assumes "bucket s t xs" "bucket s t' ys" "t \<noteq> t'"
  shows "set xs \<inter> set ys = {}"
  using assms by (auto simp: bucket_def live_def)

lemma bucket_head_nonzero:
  assumes "zone_inv s" "bucket s t xs" "xs \<noteq> []"
  shows "blockbytag s t \<noteq> 0" "blockbytag s t = hd xs" "\<exists>b. blocks s (hd xs) = Some b \<and> prev b = last xs"
proof -
  have h: "blockbytag s t = hd xs" and r: "ring (blocks s) xs"
    using assms by (auto simp: bucket_def)
  have "hd xs \<in> set xs" using assms(3) by simp
  then obtain b where b: "blocks s (hd xs) = Some b" using bucket_live[OF assms(2)] by blast
  then have "hd xs \<noteq> 0" using zone_invD[OF assms(1)] by blast
  then show "blockbytag s t \<noteq> 0" using h by simp
  show "blockbytag s t = hd xs" by (rule h)
  show "\<exists>b. blocks s (hd xs) = Some b \<and> prev b = last xs"
    using b ring_head_prev[OF r b] by simp
qed

lemma FreeTags_loop_buckets:
  assumes "zone_inv s" "0 \<le> lo" "hi < PU_MAX"
    and "\<forall>t. lo \<le> t \<and> t \<le> hi \<longrightarrow> bucket s t (f t)"
  shows "\<exists>s'. FreeTags_loop lo hi s = Some (Inr s') \<and> zone_inv s' \<and>
           (\<forall>t. lo \<le> t \<and> t \<le> hi \<longrightarrow> bucket s' t []) \<and>
           same_outside {lo..hi} s s' \<and> drops s (concat (map f [lo..hi])) s'"
  using assms
proof (induction "nat (hi + 1 - lo)" arbitrary: lo s)
  case 0
  then have "\<not> lo \<le> hi" by simp
  then have "FreeTags_loop lo hi s = Some (Inr s)" by (subst FreeTags_loop.simps) simp
  moreover have "[lo..hi] = []" using \<open>\<not> lo \<le> hi\<close> by simp
  ultimately show ?case using 0 \<open>\<not> lo \<le> hi\<close>
    by (auto simp: same_outside_refl drops_refl)
next
  case (Suc m)
  then have le: "lo \<le> hi" by simp
  have vt: "valid_tag lo" using le Suc.prems by (simp add: valid_tag_def)
  have up: "[lo..hi] = lo # [lo + 1..hi]" using le by (simp add: upto_rec1)
  have m: "m = nat (hi + 1 - (lo + 1))" using Suc.hyps(2) by simp
  have bk: "bucket s lo (f lo)" using Suc.prems(4) le by simp
  have ex: "\<exists>s1. (if blockbytag s lo = 0 then Some (Inr s)
               else (case blocks s (blockbytag s lo) of None \<Rightarrow> Some (Inl Undefined)
                     | Some b \<Rightarrow> free_loop (blockbytag s lo) (prev b) s)) = Some (Inr s1) \<and>
            zone_inv s1 \<and> bucket s1 lo [] \<and> same_outside {lo} s s1 \<and> drops s (f lo) s1"
  proof (cases "f lo = []")
    case True
    then have "blockbytag s lo = 0" using bk by (simp add: bucket_def)
    then show ?thesis using Suc.prems(1) bk True
      by (auto simp: same_outside_refl drops_refl)
  next
    case False
    from bucket_head_nonzero[OF Suc.prems(1) bk False]
    obtain b where h: "blockbytag s lo \<noteq> 0" "blockbytag s lo = hd (f lo)"
      and b: "blocks s (hd (f lo)) = Some b" "prev b = last (f lo)" by blast
    from free_loop_bucket[OF Suc.prems(1) bk False] show ?thesis using h b by simp
  qed
  then obtain s1 where s1: "(if blockbytag s lo = 0 then Some (Inr s)
               else (case blocks s (blockbytag s lo) of None \<Rightarrow> Some (Inl Undefined)
                     | Some b \<Rightarrow> free_loop (blockbytag s lo) (prev b) s)) = Some (Inr s1)"
    and inv1: "zone_inv s1" and bk1: "bucket s1 lo []" and so1: "same_outside {lo} s s1"
    and dr1: "drops s (f lo) s1" by blast
  have unf: "FreeTags_loop lo hi s = FreeTags_loop (lo + 1) hi s1"
  proof (cases "blockbytag s lo = 0")
    case True
    then have "s1 = s" using s1 by simp
    then show ?thesis using True le vt by (subst FreeTags_loop.simps) simp
  next
    case False
    then obtain b where b: "blocks s (blockbytag s lo) = Some b"
      and fl: "free_loop (blockbytag s lo) (prev b) s = Some (Inr s1)"
      using s1 by (cases "blocks s (blockbytag s lo)") simp_all
    show ?thesis using False le vt b fl by (subst FreeTags_loop.simps) simp
  qed
  have bks1: "\<forall>t. lo + 1 \<le> t \<and> t \<le> hi \<longrightarrow> bucket s1 t (f t)"
  proof (intro allI impI)
    fix t assume t: "lo + 1 \<le> t \<and> t \<le> hi"
    then have "bucket s t (f t)" using Suc.prems(4) by simp
    then show "bucket s1 t (f t)" using bucket_same_outside[OF so1] t by simp
  qed
  have lo1: "0 \<le> lo + 1" using Suc.prems(2) by simp
  from Suc.hyps(1)[OF m inv1 lo1 Suc.prems(3) bks1]
  obtain s' where fl: "FreeTags_loop (lo + 1) hi s1 = Some (Inr s')" and inv': "zone_inv s'"
    and bk': "\<forall>t. lo + 1 \<le> t \<and> t \<le> hi \<longrightarrow> bucket s' t []"
    and so': "same_outside {lo + 1..hi} s1 s'"
    and dr': "drops s1 (concat (map f [lo + 1..hi])) s'" by blast
  have "bucket s' lo []" using bucket_same_outside[OF so' _ bk1] by simp
  then have e: "\<forall>t. lo \<le> t \<and> t \<le> hi \<longrightarrow> bucket s' t []"
  proof (intro allI impI)
    fix t assume b0: "bucket s' lo []" and t: "lo \<le> t \<and> t \<le> hi"
    then consider "t = lo" | "lo + 1 \<le> t \<and> t \<le> hi" by linarith
    then show "bucket s' t []" using b0 bk' by cases simp_all
  qed
  have "{lo} \<union> {lo + 1..hi} = {lo..hi}" using le by auto
  then have so: "same_outside {lo..hi} s s'" using same_outside_trans[OF so1 so'] by simp
  have dj: "set (f lo) \<inter> set (concat (map f [lo + 1..hi])) = {}"
  proof -
    have "set (f lo) \<inter> set (f t) = {}" if "lo + 1 \<le> t" "t \<le> hi" for t
      using bucket_disjoint[OF bk, of t "f t"] Suc.prems(4) that by simp
    then show ?thesis by (auto simp: disjoint_iff)
  qed
  have "drops s (concat (map f [lo..hi])) s'"
    using drops_trans[OF dr1 dr' dj] up by simp
  then show ?case using unf fl inv' e so by auto
qed

subsection \<open>Linking a block at the tail\<close>

lemma linked_other: "x \<noteq> b \<Longrightarrow> x \<noteq> h \<Longrightarrow> x \<noteq> t \<Longrightarrow> linked h t b bs x = bs x"
  by (simp add: linked_def option.map_ident)

lemma linked_info: "map_option info (linked h t b bs x) = map_option info (bs x)"
  by (cases "bs x") (simp_all add: linked_def info_def)

lemma linked_at: "bs b = Some rb \<Longrightarrow> linked h t b bs b = Some (rb\<lparr>next := h, prev := t\<rparr>)"
  by (simp add: linked_def)

lemma live_info: "live s t = {x. map_option info (blocks s x) \<in> {Some (n, t) | n. True}}"
  by (auto simp: live_def info_def)

lemma same_outside_info:
  assumes h: "\<And>t. t \<notin> T \<Longrightarrow> blockbytag s' t = blockbytag s t"
    and i: "\<And>x. map_option info (blocks s' x) \<noteq> map_option info (blocks s x) \<Longrightarrow>
              (\<forall>r. blocks s x = Some r \<longrightarrow> tag r \<in> T) \<and> (\<forall>r. blocks s' x = Some r \<longrightarrow> tag r \<in> T)"
    and e: "\<And>x r. blocks s x = Some r \<Longrightarrow> tag r \<notin> T \<Longrightarrow> blocks s' x = Some r"
  shows "same_outside T s s'"
  unfolding same_outside_def
proof (intro conjI allI impI)
  fix t assume "t \<notin> T" then show "blockbytag s' t = blockbytag s t" by (rule h)
next
  fix x and r :: memblock assume t: "tag r \<notin> T"
  show "blocks s' x = Some r \<longleftrightarrow> blocks s x = Some r"
  proof
    assume l: "blocks s' x = Some r"
    have "map_option info (blocks s' x) = map_option info (blocks s x)"
      using i[of x] l t by blast
    then obtain r0 where r0: "blocks s x = Some r0" "info r0 = info r"
      using l by (cases "blocks s x") auto
    then have "tag r0 \<notin> T" using t by (simp add: info_def)
    from e[OF r0(1) this] l show "blocks s x = Some r" using r0 by simp
  next
    assume "blocks s x = Some r" then show "blocks s' x = Some r" using e t by simp
  qed
qed

lemma link_block_step:
  assumes vt: "valid_tag t" and la: "blocks s a = Some ra" and nin: "a \<notin> set us"
    and hd: "if us = [] then blockbytag s t = 0 else blockbytag s t = hd us \<and> ring (blocks s) us"
    and nz: "0 \<notin> set us"
  shows "link_block t a s =
           Inr (s\<lparr>blockbytag := (blockbytag s)(t := hd (us @ [a])),
                  blocks := linked (hd (us @ [a])) (last (a # us)) a (blocks s)\<rparr>)"
    and "ring (linked (hd (us @ [a])) (last (a # us)) a (blocks s)) (us @ [a])"
proof -
  show "link_block t a s =
           Inr (s\<lparr>blockbytag := (blockbytag s)(t := hd (us @ [a])),
                  blocks := linked (hd (us @ [a])) (last (a # us)) a (blocks s)\<rparr>)"
  proof (cases "us = []")
    case True
    then show ?thesis using vt la hd by (simp add: link_block_def linked_self)
  next
    case False
    then have h: "blockbytag s t = hd us" and r: "ring (blocks s) us" using hd by auto
    have "hd us \<in> set us" "last us \<in> set us" using False by auto
    then have h0: "hd us \<noteq> 0" and ah: "a \<noteq> hd us" and al: "a \<noteq> last us" using nz nin by auto
    obtain rh where rh: "blocks s (hd us) = Some rh" using ring_live[OF r] \<open>hd us \<in> set us\<close> by blast
    have pv: "prev rh = last us" using ring_head_prev[OF r rh] .
    obtain rt where rt: "blocks s (last us) = Some rt" using ring_live[OF r] \<open>last us \<in> set us\<close> by blast
    have "link_tail (hd us) a (blocks s) = Some (linked (hd us) (prev rh) a (blocks s))"
      by (rule link_tail_closed[where rt = rt and rb = ra]) (use rh rt la ah al pv in simp_all)
    moreover have "(blockbytag s)(t := hd us) = blockbytag s"
      using h by (simp add: fun_upd_idem)
    ultimately show ?thesis using False vt h h0 pv
      by (simp add: link_block_def)
  qed
  show "ring (linked (hd (us @ [a])) (last (a # us)) a (blocks s)) (us @ [a])"
  proof (cases "us = []")
    case True
    then show ?thesis using ring_single[of "blocks s" a ra] la by simp
  next
    case False
    then have r: "ring (blocks s) us" using hd by auto
    from ring_link[OF r nin la] False show ?thesis by simp
  qed
qed

lemma valid_tag_mod: "valid_tag t \<Longrightarrow> t mod 256 = t"
  by (simp add: valid_tag_def PU_MAX_def)

lemma bucket_nonzero: "zone_inv s \<Longrightarrow> bucket s t us \<Longrightarrow> 0 \<notin> set us"
  using bucket_live zone_invD by blast

lemma register_block_bucket:
  assumes inv: "zone_inv s" and vt: "valid_tag t" and fr: "blocks s a = None"
    and a0: "a \<noteq> 0" "a + HEADER_SIZE \<noteq> 0" and bk: "bucket s t us"
    and sp: "spans s a = Some m" and fit: "\<not> m < sizeof_memblock"
  shows "\<exists>s' r. register_block n t user junk a s = Inr (set_user user (a + HEADER_SIZE) s', a + HEADER_SIZE) \<and>
           zone_inv s' \<and> bucket s' t (us @ [a]) \<and> same_outside {t} s s' \<and>
           blocks s' a = Some r \<and> size_b r = n \<and> tag r = t \<and>
           (\<forall>x. x \<noteq> a \<longrightarrow> map_option info (blocks s' x) = map_option info (blocks s x)) \<and>
           free_memory s' = free_memory s - ucast n \<and> memory_size s' = memory_size s \<and>
           released s' = released s \<and> mem s' = mem s \<and> slots s' = slots s \<and> spans s' = spans s"
proof -
  define h where "h = hd (us @ [a])"
  define tl where "tl = last (a # us)"
  let ?s0 = "s\<lparr>blocks := (blocks s)(a \<mapsto> junk)\<rparr>"
  let ?L = "linked h tl a (blocks ?s0)"
  let ?s1 = "?s0\<lparr>blockbytag := (blockbytag ?s0)(t := h), blocks := ?L\<rparr>"
  let ?r = "junk\<lparr>next := h, prev := tl, size_b := n, tag := t\<rparr>"
  let ?s' = "?s1\<lparr>free_memory := free_memory ?s1 - ucast n, blocks := ?L(a \<mapsto> ?r)\<rparr>"
  have nin: "a \<notin> set us" using bk fr by (auto simp: bucket_def live_def)
  have nz: "0 \<notin> set us" using bucket_nonzero[OF inv bk] .
  have la0: "blocks ?s0 a = Some junk" by simp
  have hd0: "if us = [] then blockbytag ?s0 t = 0 else blockbytag ?s0 t = hd us \<and> ring (blocks ?s0) us"
  proof (cases "us = []")
    case True then show ?thesis using bk by (simp add: bucket_def)
  next
    case False
    then have "ring (blocks s) us" using bk by (simp add: bucket_def)
    then have "ring (blocks ?s0) us" by (rule ring_cong) (use nin in auto)
    then show ?thesis using False bk by (simp add: bucket_def)
  qed
  note ls = link_block_step[OF vt la0 nin hd0 nz, folded h_def tl_def]
  have La: "?L a = Some (junk\<lparr>next := h, prev := tl\<rparr>)"
    by (simp add: linked_at)
  have reg: "register_block n t user junk a s = Inr (set_user user (a + HEADER_SIZE) ?s', a + HEADER_SIZE)"
    using ls(1) La vt sp fit by (simp add: register_block_def valid_tag_mod)
  have inf: "map_option info (blocks ?s' x) = map_option info (blocks s x)" if "x \<noteq> a" for x
    using that by (simp add: linked_info)
  have ring': "ring (blocks ?s') (us @ [a])"
  proof (rule ring_cong[OF ls(2)])
    fix x assume "x \<in> set (us @ [a])"
    show "map_option ptrs (blocks ?s' x) = map_option ptrs (?L x)"
    proof (cases "x = a")
      case True
      have A: "map_option ptrs (?L a) = Some (h, tl)"
        unfolding La by (simp add: ptrs_def)
      have B: "map_option ptrs (blocks ?s' a) = Some (h, tl)"
        by (simp add: ptrs_def)
      show ?thesis unfolding True by (rule trans[OF B A[symmetric]])
    next
      case False
      then show ?thesis by simp
    qed
  qed
  have lv: "live ?s' t = insert a (live s t)"
  proof -
    have "x \<in> live ?s' t \<longleftrightarrow> x \<in> insert a (live s t)" for x
    proof (cases "x = a")
      case True then show ?thesis by (simp add: live_def)
    next
      case False
      then show ?thesis by (simp only: live_info mem_Collect_eq inf[OF False] insert_iff simp_thms)
    qed
    then show ?thesis by blast
  qed
  have bk': "bucket ?s' t (us @ [a])"
    using bk nin ring' lv by (simp add: bucket_def h_def)
  have so: "same_outside {t} s ?s'"
  proof (rule same_outside_info)
    fix t' assume "t' \<notin> {t}" then show "blockbytag ?s' t' = blockbytag s t'" by simp
  next
    fix x assume "map_option info (blocks ?s' x) \<noteq> map_option info (blocks s x)"
    then have "x = a" using inf by blast
    then show "(\<forall>r. blocks s x = Some r \<longrightarrow> tag r \<in> {t}) \<and> (\<forall>r. blocks ?s' x = Some r \<longrightarrow> tag r \<in> {t})"
      using fr by simp
  next
    fix x r assume l: "blocks s x = Some r" and tr: "tag r \<notin> {t}"
    have xa: "x \<noteq> a" using l fr by auto
    have "x \<notin> set us" using l tr bk by (auto simp: bucket_def live_def)
    then have "x \<noteq> h" "x \<noteq> tl" using xa unfolding h_def tl_def
      by (cases us; auto)+
    then show "blocks ?s' x = Some r" using xa l by (simp add: linked_other)
  qed
  have inv': "zone_inv ?s'"
    unfolding zone_inv_def
  proof (intro conjI allI impI)
    fix x r assume l: "blocks ?s' x = Some r"
    have "x \<noteq> 0 \<and> x + HEADER_SIZE \<noteq> 0 \<and> valid_tag (tag r)"
    proof (cases "x = a")
      case True then show ?thesis using l a0 vt by auto
    next
      case False
      from inf[OF False] l obtain r0 where "blocks s x = Some r0" "info r0 = info r"
        by (cases "blocks s x") auto
      then show ?thesis using zone_invD[OF inv, of x r0] by (simp add: info_def)
    qed
    then show "x \<noteq> 0" "x + HEADER_SIZE \<noteq> 0" "valid_tag (tag r)" by auto
  next
    fix t' assume vt': "valid_tag t'"
    show "\<exists>xs. bucket ?s' t' xs"
    proof (cases "t' = t")
      case True then show ?thesis using bk' by auto
    next
      case False
      obtain xs where "bucket s t' xs" using inv vt' by (auto simp: zone_inv_def)
      then have "bucket ?s' t' xs" using bucket_same_outside[OF so] False by simp
      then show ?thesis ..
    qed
  qed
  have "blocks ?s' a = Some ?r \<and> size_b ?r = n \<and> tag ?r = t" by simp
  moreover have "free_memory ?s' = free_memory s - ucast n \<and> memory_size ?s' = memory_size s \<and>
           released ?s' = released s \<and> mem ?s' = mem s \<and> slots ?s' = slots s \<and> spans ?s' = spans s" by simp
  ultimately show ?thesis using reg inv' bk' so inf by blast
qed

subsection \<open>Z\_ChangeTag on a block of a bucket\<close>

lemma Z_ChangeTag_bucket:
  assumes inv: "zone_inv s" and la: "blocks s a = Some b" and ne: "t \<noteq> tag b"
    and vt: "valid_tag t" and bk0: "bucket s (tag b) (ys @ a # zs)" and bk1: "bucket s t us"
  shows "\<exists>s' r. Z_ChangeTag (a + HEADER_SIZE) t s = Inr s' \<and> zone_inv s' \<and>
           bucket s' (tag b) (ys @ zs) \<and> bucket s' t (us @ [a]) \<and>
           same_outside {tag b, t} s s' \<and>
           blocks s' a = Some r \<and> tag r = t \<and> size_b r = size_b b \<and>
           (\<forall>x. x \<noteq> a \<longrightarrow> map_option info (blocks s' x) = map_option info (blocks s x)) \<and>
           free_memory s' = free_memory s \<and> memory_size s' = memory_size s \<and>
           released s' = released s \<and> mem s' = mem s \<and> slots s' = slots s \<and> spans s' = spans s"
proof -
  define t0 where "t0 = tag b"
  define h where "h = hd (us @ [a])"
  define tl where "tl = last (a # us)"
  define U where "U = unlinked (prev b) (next b) (blocks s)"
  define H where "H = (blockbytag s)(t0 := (if ys @ zs = [] then 0 else hd (ys @ zs)))"
  define ra where "ra = b\<lparr>next := (if a = prev b then next b else next b),
                           prev := (if a = next b then prev b else prev b)\<rparr>"
  let ?s1 = "s\<lparr>blockbytag := H, blocks := U\<rparr>"
  define L where "L = linked h tl a U"
  let ?s2 = "?s1\<lparr>blockbytag := H(t := h), blocks := L\<rparr>"
  obtain ra where Ua: "U a = Some ra" and ra: "tag ra = t0" "size_b ra = size_b b"
    using unlinked_live[of "blocks s" a b "prev b" "next b"] la by (auto simp: U_def t0_def)
  define r' where "r' = ra\<lparr>next := h, prev := tl, tag := t\<rparr>"
  let ?s' = "?s2\<lparr>blocks := L(a \<mapsto> r')\<rparr>"
  have a0: "a \<noteq> 0" "a + HEADER_SIZE \<noteq> 0" "valid_tag t0"
    using zone_invD[OF inv la] by (auto simp: t0_def)
  have r: "ring (blocks s) (ys @ a # zs)" and hd: "blockbytag s (tag b) = hd (ys @ a # zs)"
    and d: "distinct (ys @ a # zs)" and lv0: "set (ys @ a # zs) = live s t0"
    using bk0 by (auto simp: bucket_def t0_def)
  note bu = bucket_unlink[OF r la]
  have dh: "drop_head a b (blockbytag s) = H"
    unfolding H_def t0_def
    by (rule drop_head_bucket[where bs = "blocks s" and heads = "blockbytag s" and ys = ys and zs = zs, OF r la hd])
  have pn: "prev b \<in> live s t0" "next b \<in> live s t0" using bu(3,4) lv0 by auto
  have lv1: "set us = live s t" and d1: "distinct us" using bk1 by (auto simp: bucket_def)
  have dis: "x \<in> live s t0 \<Longrightarrow> x \<notin> live s t" for x using ne by (auto simp: live_def t0_def)
  have nin: "a \<notin> set us"
    using lv1 dis[of a] la by (auto simp: live_def t0_def)
  have nz: "0 \<notin> set us" using bucket_nonzero[OF inv bk1] .
  have Uus: "U x = blocks s x" if "x \<in> set us" for x
  proof -
    have "x \<noteq> prev b" "x \<noteq> next b" using that lv1 pn dis by auto
    then show ?thesis unfolding U_def by (rule unlinked_other)
  qed
  have hd1: "if us = [] then blockbytag ?s1 t = 0 else blockbytag ?s1 t = hd us \<and> ring (blocks ?s1) us"
  proof (cases "us = []")
    case True then show ?thesis using bk1 ne by (simp add: bucket_def H_def t0_def)
  next
    case False
    then have "ring (blocks s) us" using bk1 by (simp add: bucket_def)
    then have "ring U us" by (rule ring_cong) (simp add: Uus)
    then show ?thesis using False bk1 ne by (simp add: bucket_def H_def t0_def)
  qed
  have la1: "blocks ?s1 a = Some ra" using Ua by simp
  note ls = link_block_step[OF vt la1 nin hd1 nz, folded h_def tl_def, simplified, folded L_def]
  have La: "L a = Some (ra\<lparr>next := h, prev := tl\<rparr>)"
    unfolding L_def using Ua by (simp add: linked_at)
  have zc: "Z_ChangeTag (a + HEADER_SIZE) t s = Inr ?s'"
    using a0 la ne bu(1) dh ls(1) La vt
    by (simp add: Z_ChangeTag_def Let_def U_def[symmetric] t0_def[symmetric] valid_tag_mod r'_def)
  have inf: "map_option info (blocks ?s' x) = map_option info (blocks s x)" if "x \<noteq> a" for x
    using that by (simp add: L_def U_def linked_info unlinked_info)
  have htl: "h \<in> insert a (set us)" "tl \<in> insert a (set us)"
    unfolding h_def tl_def by (cases us; simp)+
  have ring1: "ring (blocks ?s') (us @ [a])"
  proof (rule ring_cong[OF ls(2)])
    fix x assume "x \<in> set (us @ [a])"
    show "map_option ptrs (blocks ?s' x) = map_option ptrs (L x)"
    proof (cases "x = a")
      case True
      have A: "map_option ptrs (L a) = Some (h, tl)"
        unfolding La by (simp add: ptrs_def)
      have B: "map_option ptrs (blocks ?s' a) = Some (h, tl)"
        by (simp add: ptrs_def r'_def)
      show ?thesis unfolding True by (rule trans[OF B A[symmetric]])
    next
      case False
      then show ?thesis by simp
    qed
  qed
  have lvt: "live ?s' t = insert a (live s t)"
  proof -
    have "x \<in> live ?s' t \<longleftrightarrow> x \<in> insert a (live s t)" for x
    proof (cases "x = a")
      case True then show ?thesis by (simp add: live_def r'_def)
    next
      case False
      then show ?thesis by (simp only: live_info mem_Collect_eq inf[OF False] insert_iff simp_thms)
    qed
    then show ?thesis by blast
  qed
  have lvt0: "live ?s' t0 = live s t0 - {a}"
  proof -
    have "x \<in> live ?s' t0 \<longleftrightarrow> x \<in> live s t0 - {a}" for x
    proof (cases "x = a")
      case True then show ?thesis using ne by (simp add: live_def r'_def t0_def)
    next
      case False
      then show ?thesis
        by (simp only: live_info mem_Collect_eq inf[OF False] Diff_iff singleton_iff simp_thms)
    qed
    then show ?thesis by blast
  qed
  have bkt: "bucket ?s' t (us @ [a])"
    using d1 nin ring1 lvt lv1 by (simp add: bucket_def h_def)
  have bkt0: "bucket ?s' t0 (ys @ zs)"
  proof -
    have "ring (blocks ?s') (ys @ zs)" if nem: "ys @ zs \<noteq> []"
    proof (rule ring_cong[OF bu(2)[OF nem]])
      fix x assume x: "x \<in> set (ys @ zs)"
      then have xa: "x \<noteq> a" using d by auto
      have "x \<in> live s t0" using x lv0 by auto
      then have "x \<notin> set us" using dis lv1 by auto
      then have "x \<noteq> h" "x \<noteq> tl" using htl xa by auto
      then have "L x = U x" using xa unfolding L_def by (simp add: linked_other)
      then show "map_option ptrs (blocks ?s' x) = map_option ptrs (unlinked (prev b) (next b) (blocks s) x)"
        using xa by (simp add: U_def)
    qed
    moreover have "blockbytag ?s' t0 = (if ys @ zs = [] then 0 else hd (ys @ zs))"
      using ne by (simp add: H_def t0_def)
    moreover have "set (ys @ zs) = live ?s' t0" using lvt0 lv0[symmetric] d by auto
    ultimately show ?thesis using d by (simp add: bucket_def)
  qed
  have so: "same_outside {t0, t} s ?s'"
  proof (rule same_outside_info)
    fix t' assume "t' \<notin> {t0, t}" then show "blockbytag ?s' t' = blockbytag s t'"
      by (simp add: H_def)
  next
    fix x assume "map_option info (blocks ?s' x) \<noteq> map_option info (blocks s x)"
    then have "x = a" using inf by blast
    then show "(\<forall>r. blocks s x = Some r \<longrightarrow> tag r \<in> {t0, t}) \<and> (\<forall>r. blocks ?s' x = Some r \<longrightarrow> tag r \<in> {t0, t})"
      using la by (simp add: t0_def r'_def)
  next
    fix x r assume l: "blocks s x = Some r" and tr: "tag r \<notin> {t0, t}"
    have xa: "x \<noteq> a" using l la tr by (auto simp: t0_def)
    have "x \<notin> live s t0" "x \<notin> live s t" using l tr by (auto simp: live_def)
    then have "x \<noteq> prev b" "x \<noteq> next b" "x \<notin> set us" using pn lv1 by auto
    then have "x \<noteq> h" "x \<noteq> tl" "U x = blocks s x" using htl xa
      by (auto simp: U_def unlinked_other)
    then show "blocks ?s' x = Some r" using xa l by (simp add: L_def linked_other)
  qed
  have inv': "zone_inv ?s'"
    unfolding zone_inv_def
  proof (intro conjI allI impI)
    fix x r assume l: "blocks ?s' x = Some r"
    have "x \<noteq> 0 \<and> x + HEADER_SIZE \<noteq> 0 \<and> valid_tag (tag r)"
    proof (cases "x = a")
      case True then show ?thesis using l a0 vt by (auto simp: r'_def)
    next
      case False
      from inf[OF False] l obtain r0 where "blocks s x = Some r0" "info r0 = info r"
        by (cases "blocks s x") auto
      then show ?thesis using zone_invD[OF inv, of x r0] by (simp add: info_def)
    qed
    then show "x \<noteq> 0" "x + HEADER_SIZE \<noteq> 0" "valid_tag (tag r)" by auto
  next
    fix t' assume vt': "valid_tag t'"
    show "\<exists>xs. bucket ?s' t' xs"
    proof (cases "t' = t \<or> t' = t0")
      case True then show ?thesis using bkt bkt0 by auto
    next
      case False
      obtain xs where "bucket s t' xs" using inv vt' by (auto simp: zone_inv_def)
      then have "bucket ?s' t' xs" using bucket_same_outside[OF so] False by simp
      then show ?thesis ..
    qed
  qed
  have "blocks ?s' a = Some r' \<and> tag r' = t \<and> size_b r' = size_b b"
    using ra by (simp add: r'_def)
  moreover have "free_memory ?s' = free_memory s \<and> memory_size ?s' = memory_size s \<and>
           released ?s' = released s \<and> mem ?s' = mem s \<and> slots ?s' = slots s \<and> spans ?s' = spans s" by simp
  ultimately show ?thesis using zc inv' bkt bkt0 so inf unfolding t0_def by blast
qed

subsection \<open>Z\_FreeTags, the budget pass and the retry loop\<close>

lemma zone_inv_buckets:
  assumes "zone_inv s"
  shows "\<exists>f. \<forall>t. valid_tag t \<longrightarrow> bucket s t (f t)"
proof -
  have "\<forall>t. \<exists>xs. valid_tag t \<longrightarrow> bucket s t xs" using assms by (auto simp: zone_inv_def)
  then show ?thesis by (rule choice)
qed

lemma clamp_lo: "(if lo \<le> PU_FREE then PU_FREE + 1 else lo) = max lo (PU_FREE + 1)"
  by auto

lemma clamp_hi: "(if hi > PU_CACHE then PU_CACHE else hi) = min hi PU_CACHE"
  by auto

lemma Z_FreeTags_buckets:
  assumes inv: "zone_inv s" and f: "\<forall>t. valid_tag t \<longrightarrow> bucket s t (f t)"
  shows "\<exists>s'. Z_FreeTags lo hi s = Some (Inr s') \<and> zone_inv s' \<and>
           (\<forall>t. max lo (PU_FREE + 1) \<le> t \<and> t \<le> min hi PU_CACHE \<longrightarrow> bucket s' t []) \<and>
           same_outside {max lo (PU_FREE + 1)..min hi PU_CACHE} s s' \<and>
           drops s (concat (map f [max lo (PU_FREE + 1)..min hi PU_CACHE])) s'"
proof -
  let ?lo = "max lo (PU_FREE + 1)" and ?hi = "min hi PU_CACHE"
  have 1: "0 \<le> ?lo" by (simp add: PU_FREE_def)
  have 2: "?hi < PU_MAX" by (simp add: PU_CACHE_def PU_MAX_def)
  have 3: "\<forall>t. ?lo \<le> t \<and> t \<le> ?hi \<longrightarrow> bucket s t (f t)"
    using f by (auto simp: valid_tag_def PU_FREE_def PU_CACHE_def PU_MAX_def)
  have "Z_FreeTags lo hi s = FreeTags_loop ?lo ?hi s"
    by (simp only: Z_FreeTags_def Let_def clamp_lo clamp_hi)
  then show ?thesis using FreeTags_loop_buckets[OF inv 1 2 3] by simp
qed

lemma valid_CACHE: "valid_tag PU_CACHE"
  by (simp add: valid_tag_def PU_CACHE_def PU_MAX_def)

lemma Z_FreeTags_CACHE:
  assumes inv: "zone_inv s" and bk: "bucket s PU_CACHE xs"
  shows "\<exists>s'. Z_FreeTags PU_CACHE PU_CACHE s = Some (Inr s') \<and> zone_inv s' \<and>
           bucket s' PU_CACHE [] \<and> same_outside {PU_CACHE} s s' \<and> drops s xs s'"
proof -
  obtain f where f: "\<forall>t. valid_tag t \<longrightarrow> bucket s t (f t)" using zone_inv_buckets[OF inv] by blast
  define g where "g = f(PU_CACHE := xs)"
  have g: "\<forall>t. valid_tag t \<longrightarrow> bucket s t (g t)" using f bk by (simp add: g_def)
  have m: "max PU_CACHE (PU_FREE + 1) = PU_CACHE" "min PU_CACHE PU_CACHE = PU_CACHE"
    by (simp_all add: PU_CACHE_def PU_FREE_def)
  from Z_FreeTags_buckets[OF inv g, of PU_CACHE PU_CACHE]
  obtain s' where "Z_FreeTags PU_CACHE PU_CACHE s = Some (Inr s')" "zone_inv s'"
    "\<forall>t. PU_CACHE \<le> t \<and> t \<le> PU_CACHE \<longrightarrow> bucket s' t []"
    "same_outside {PU_CACHE} s s'" "drops s xs s'"
    unfolding m by (auto simp: g_def)
  then show ?thesis by (intro exI[of _ s']) simp
qed

lemma purge_pass_bucket:
  assumes inv: "zone_inv s" and bk: "bucket s PU_CACHE xs"
    and c: "0 < sint (memory_size s)" "short_of n s"
  shows "\<exists>s' k. purge_pass n s = Some (Inr s') \<and> k \<le> length xs \<and> (xs \<noteq> [] \<longrightarrow> 0 < k) \<and>
           zone_inv s' \<and> bucket s' PU_CACHE (drop k xs) \<and> same_outside {PU_CACHE} s s' \<and>
           drops s (take k xs) s' \<and>
           (k < length xs \<longrightarrow> \<not> short_after n s (take k xs)) \<and>
           (\<forall>j. j < k \<longrightarrow> short_after n s (take j xs))"
proof (cases "xs = []")
  case True
  then have "blockbytag s PU_CACHE = 0" using bk by (simp add: bucket_def)
  then have "purge_pass n s = Some (Inr s)" by (simp add: purge_pass_def)
  then show ?thesis using True inv bk
    by (intro exI[of _ s] exI[of _ 0]) (simp add: same_outside_refl drops_refl)
next
  case False
  from bucket_head_nonzero[OF inv bk False]
  obtain b where h: "blockbytag s PU_CACHE \<noteq> 0" "blockbytag s PU_CACHE = hd xs"
    and b: "blocks s (hd xs) = Some b" "prev b = last xs" by blast
  have pp: "purge_pass n s = purge_loop (hd xs) (last xs) n s"
    using c h b by (simp add: purge_pass_def)
  from purge_loop_bucket[OF inv bk False, of n]
  obtain s' k where pl: "purge_loop (hd xs) (last xs) n s = Some (Inr s')"
    and k: "0 < k" "k \<le> length xs" and r: "zone_inv s'" "bucket s' PU_CACHE (drop k xs)"
      "same_outside {PU_CACHE} s s'" "drops s (take k xs) s'"
      "k < length xs \<longrightarrow> \<not> short_after n s (take k xs)"
    and go: "\<forall>j. 0 < j \<and> j < k \<longrightarrow> short_after n s (take j xs)"
    by blast
  have "short_after n s (take 0 xs)" using c(2) by (simp add: short_after_def short_of_def)
  then have "\<forall>j. j < k \<longrightarrow> short_after n s (take j xs)"
    using go by (metis gr0I)
  then show ?thesis using pp pl k r
    by (intro exI[of _ s'] exI[of _ k]) simp
qed

lemma purge_pass_skip:
  assumes "\<not> (0 < sint (memory_size s) \<and> short_of n s)"
  shows "purge_pass n s = Some (Inr s)"
  using assms by (auto simp: purge_pass_def)

lemma zone_inv_spans [simp]: "zone_inv (s\<lparr>spans := X\<rparr>) = zone_inv s"
  by (simp add: zone_inv_def bucket_def live_def)

lemma bucket_spans [simp]: "bucket (s\<lparr>spans := X\<rparr>) t xs = bucket s t xs"
  by (simp add: bucket_def live_def)

lemma same_outside_spans [simp]: "same_outside T s (s'\<lparr>spans := X\<rparr>) = same_outside T s s'"
  by (simp add: same_outside_def)

lemma malloc_loop_answer:
  assumes "env i \<noteq> 0"
  shows "malloc_loop env i n s =
           (if spans s (env i) = None \<and> unat (env i) + unat n < 2 ^ 64
            then Some (Inr (s\<lparr>spans := (spans s)(env i \<mapsto> n)\<rparr>, env i))
            else Some (Inl BadAllocator))"
  using assms by (subst malloc_loop.simps) (simp add: Let_def)

lemma malloc_loop_fatal:
  assumes "env i = 0" "blockbytag s PU_CACHE = 0"
  shows "malloc_loop env i n s = Some (Inl Fatal)"
  using assms by (subst malloc_loop.simps) (simp add: Let_def)

lemma malloc_loop_retry:
  assumes inv: "zone_inv s" and bk: "bucket s PU_CACHE xs" and e: "env i = 0" and ne: "xs \<noteq> []"
  shows "\<exists>s'. Z_FreeTags PU_CACHE PU_CACHE s = Some (Inr s') \<and> zone_inv s' \<and>
           bucket s' PU_CACHE [] \<and> same_outside {PU_CACHE} s s' \<and> drops s xs s' \<and>
           malloc_loop env i n s = malloc_loop env (Suc i) n s' \<and>
           malloc_loop env (Suc i) n s' =
             (if env (Suc i) = 0 then Some (Inl Fatal)
              else if spans s' (env (Suc i)) = None \<and> unat (env (Suc i)) + unat n < 2 ^ 64
                then Some (Inr (s'\<lparr>spans := (spans s')(env (Suc i) \<mapsto> n)\<rparr>, env (Suc i)))
              else Some (Inl BadAllocator))"
proof -
  from Z_FreeTags_CACHE[OF inv bk]
  obtain s' where ft: "Z_FreeTags PU_CACHE PU_CACHE s = Some (Inr s')" and r: "zone_inv s'"
    "bucket s' PU_CACHE []" "same_outside {PU_CACHE} s s'" "drops s xs s'" by blast
  have h: "blockbytag s PU_CACHE \<noteq> 0" using bucket_head_nonzero(1)[OF inv bk ne] .
  have 1: "malloc_loop env i n s = malloc_loop env (Suc i) n s'"
    using e h ft by (subst malloc_loop.simps) (simp add: Let_def)
  have h': "blockbytag s' PU_CACHE = 0" using r(2) by (simp add: bucket_def)
  have 2: "malloc_loop env (Suc i) n s' =
             (if env (Suc i) = 0 then Some (Inl Fatal)
              else if spans s' (env (Suc i)) = None \<and> unat (env (Suc i)) + unat n < 2 ^ 64
                then Some (Inr (s'\<lparr>spans := (spans s')(env (Suc i) \<mapsto> n)\<rparr>, env (Suc i)))
              else Some (Inl BadAllocator))"
    using malloc_loop_answer[of env "Suc i" n s'] malloc_loop_fatal[of env "Suc i" s' n, OF _ h']
    by auto
  show ?thesis using ft r 1 2 by blast
qed

lemma malloc_loop_cases:
  assumes inv: "zone_inv s"
  shows "malloc_loop env i n s = Some (Inl Fatal) \<or> malloc_loop env i n s = Some (Inl BadAllocator) \<or>
         (\<exists>s' a as. malloc_loop env i n s = Some (Inr (s'\<lparr>spans := (spans s')(a \<mapsto> n)\<rparr>, a)) \<and>
             zone_inv s' \<and> a \<noteq> 0 \<and> spans s' a = None \<and> unat a + unat n < 2 ^ 64 \<and>
             same_outside {PU_CACHE} s s' \<and> drops s as s')"
proof -
  obtain xs where bk: "bucket s PU_CACHE xs" using inv valid_CACHE by (auto simp: zone_inv_def)
  show ?thesis
  proof (cases "env i = 0")
    case False
    show ?thesis
    proof (cases "spans s (env i) = None \<and> unat (env i) + unat n < 2 ^ 64")
      case True
      then have "malloc_loop env i n s = Some (Inr (s\<lparr>spans := (spans s)(env i \<mapsto> n)\<rparr>, env i))"
        using malloc_loop_answer[of env i n s] False by simp
      then have "\<exists>s' a as. malloc_loop env i n s = Some (Inr (s'\<lparr>spans := (spans s')(a \<mapsto> n)\<rparr>, a)) \<and>
             zone_inv s' \<and> a \<noteq> 0 \<and> spans s' a = None \<and> unat a + unat n < 2 ^ 64 \<and>
             same_outside {PU_CACHE} s s' \<and> drops s as s'"
        using inv False True same_outside_refl[of "{PU_CACHE}" s] drops_refl[of s]
        by (intro exI[of _ s] exI[of _ "env i"] exI[of _ "[]"]) simp
      then show ?thesis by blast
    next
      case b: False
      then have "malloc_loop env i n s = Some (Inl BadAllocator)"
        using malloc_loop_answer[of env i n s] False by simp
      then show ?thesis by simp
    qed
  next
    case True
    show ?thesis
    proof (cases "xs = []")
      case e: True
      then have "blockbytag s PU_CACHE = 0" using bk by (simp add: bucket_def)
      from malloc_loop_fatal[of env i s n] True this show ?thesis by simp
    next
      case False
      from malloc_loop_retry[where env = env and i = i and n = n, OF inv bk True False]
      obtain s' where r: "zone_inv s'" "same_outside {PU_CACHE} s s'" "drops s xs s'"
        and 1: "malloc_loop env i n s = malloc_loop env (Suc i) n s'"
        and 2: "malloc_loop env (Suc i) n s' =
             (if env (Suc i) = 0 then Some (Inl Fatal)
              else if spans s' (env (Suc i)) = None \<and> unat (env (Suc i)) + unat n < 2 ^ 64
                then Some (Inr (s'\<lparr>spans := (spans s')(env (Suc i) \<mapsto> n)\<rparr>, env (Suc i)))
              else Some (Inl BadAllocator))" by blast
      note step = \<open>malloc_loop env i n s = malloc_loop env (Suc i) n s'\<close>
      note val = \<open>malloc_loop env (Suc i) n s' = _\<close>
      consider (null) "env (Suc i) = 0"
        | (good) "env (Suc i) \<noteq> 0" "spans s' (env (Suc i)) = None \<and> unat (env (Suc i)) + unat n < 2 ^ 64"
        | (bad) "env (Suc i) \<noteq> 0" "\<not> (spans s' (env (Suc i)) = None \<and> unat (env (Suc i)) + unat n < 2 ^ 64)"
        by blast
      then show ?thesis
      proof cases
        case null
        have "malloc_loop env i n s = Some (Inl Fatal)"
          unfolding step val using null by (simp only: simp_thms if_True if_False)
        then show ?thesis by simp
      next
        case bad
        have "malloc_loop env i n s = Some (Inl BadAllocator)"
          unfolding step val using bad by (simp only: simp_thms if_True if_False)
        then show ?thesis by simp
      next
        case good
        have "malloc_loop env i n s = Some (Inr (s'\<lparr>spans := (spans s')(env (Suc i) \<mapsto> n)\<rparr>, env (Suc i)))"
          unfolding step val using good by (simp only: simp_thms if_True if_False)
        then have "\<exists>s'' a as. malloc_loop env i n s = Some (Inr (s''\<lparr>spans := (spans s'')(a \<mapsto> n)\<rparr>, a)) \<and>
             zone_inv s'' \<and> a \<noteq> 0 \<and> spans s'' a = None \<and> unat a + unat n < 2 ^ 64 \<and>
             same_outside {PU_CACHE} s s'' \<and> drops s as s''"
          using r good by (intro exI[of _ s'] exI[of _ "env (Suc i)"] exI[of _ xs]) simp
        then show ?thesis by blast
      qed
    qed
  qed
qed

subsection \<open>Every operation keeps the invariant\<close>

lemma zone_inv_set_user [simp]: "zone_inv (set_user user v s) = zone_inv s"
  by (cases user) (simp_all add: set_user_def zone_inv_def bucket_def live_def)

lemma set_user_fields [simp]:
  "blocks (set_user user v s) = blocks s" "blockbytag (set_user user v s) = blockbytag s"
  "mem (set_user user v s) = mem s" "released (set_user user v s) = released s"
  "free_memory (set_user user v s) = free_memory s"
  "memory_size (set_user user v s) = memory_size s"
  "spans (set_user user v s) = spans s"
  by (cases user; simp add: set_user_def)+

lemma span_inv_set_user [simp]: "span_inv (set_user user v s) = span_inv s"
  by (simp add: span_inv_def)

lemma span_inv_keep:
  assumes si: "span_inv s"
    and inf: "\<And>x. x \<noteq> a \<Longrightarrow> map_option info (blocks s' x) = map_option info (blocks s x)"
    and sp: "\<And>x. x \<noteq> a \<Longrightarrow> spans s' x = spans s x"
    and at: "\<And>r. blocks s' a = Some r \<Longrightarrow>
               spans s' a = Some (size_b r + HEADER_SIZE) \<and> unat (size_b r) + unat HEADER_SIZE < 2 ^ 64"
  shows "span_inv s'"
  unfolding span_inv_def
proof (intro allI impI)
  fix x and r :: memblock assume h: "blocks s' x = Some r"
  show "spans s' x = Some (size_b r + HEADER_SIZE) \<and> unat (size_b r) + unat HEADER_SIZE < 2 ^ 64"
  proof (cases "x = a")
    case True then show ?thesis using at h by simp
  next
    case False
    from inf[OF False] h obtain r0 where r0: "blocks s x = Some r0" "size_b r0 = size_b r"
      by (cases "blocks s x") (auto simp: info_def)
    from span_invD[OF si r0(1)] sp[OF False] r0(2) show ?thesis by simp
  qed
qed

lemma header_fits:
  "\<not> x + HEADER_SIZE < sizeof_memblock \<Longrightarrow> unat x + unat HEADER_SIZE < 2 ^ 64"
proof (rule ccontr)
  assume h: "\<not> x + HEADER_SIZE < sizeof_memblock" and c: "\<not> unat x + unat HEADER_SIZE < 2 ^ 64"
  have k: "unat x < 2 ^ 64" using unsigned_less[of x, where ?'a = nat] by simp
  have "unat (x + 32) = (unat x + 32) mod 2 ^ 64" by (simp add: unat_word_ariths)
  also have "\<dots> = unat x + 32 - 2 ^ 64"
    using c k unfolding HEADER_SIZE_32 by (simp add: mod_if)
  finally have "unat (x + 32) < 32" using k by simp
  then have "x + 32 < 32" by (simp add: word_less_nat_alt)
  then show False using h by (simp add: HEADER_SIZE_32 sizeof_memblock_def)
qed

lemma payload_nonzero:
  assumes "unat (a::64 word) + 32 < 2 ^ 64" "a \<noteq> 0"
  shows "a + HEADER_SIZE \<noteq> 0"
proof
  assume z: "a + HEADER_SIZE = 0"
  have "unat (a + 32) = (unat a + 32) mod 2 ^ 64" by (simp add: unat_word_ariths)
  also have "\<dots> = unat a + 32" using assms(1) by simp
  finally have "unat (a + 32) \<noteq> 0" by simp
  then show False using z by (simp add: HEADER_SIZE_32)
qed

lemma span_fresh: "span_inv s \<Longrightarrow> spans s a = None \<Longrightarrow> blocks s a = None"
  by (cases "blocks s a") (auto simp: span_inv_def)

lemma register_block_invalid:
  assumes "\<not> valid_tag t"
  shows "register_block n t user junk a s = Inl Undefined"
  using assms by (simp add: register_block_def link_block_def split: option.splits)

lemma purge_pass_total:
  assumes inv: "zone_inv s"
  shows "\<exists>s1 as. purge_pass n s = Some (Inr s1) \<and> zone_inv s1 \<and> drops s as s1 \<and>
           same_outside {PU_CACHE} s s1"
proof (cases "0 < sint (memory_size s) \<and> short_of n s")
  case True
  obtain xs where bk: "bucket s PU_CACHE xs" using inv valid_CACHE by (auto simp: zone_inv_def)
  from purge_pass_bucket[OF inv bk, of n] True show ?thesis by blast
next
  case False
  from purge_pass_skip[OF False] show ?thesis
    using inv drops_refl same_outside_refl by blast
qed

lemma drops_mem: "drops s as s' \<Longrightarrow> mem s' = mem s \<and> memory_size s' = memory_size s \<and> slots s' = slots s"
  by (simp add: drops_def)

lemma Z_Malloc_valid:
  assumes inv: "zone_inv s" and si: "span_inv s" and n: "n \<noteq> 0" and vt: "valid_tag t"
  shows "Z_Malloc n t user env junk s = Some (Inl Fatal) \<or>
         Z_Malloc n t user env junk s = Some (Inl BadAllocator) \<or>
         (round_chunk n + HEADER_SIZE < sizeof_memblock \<and>
          Z_Malloc n t user env junk s = Some (Inl Undefined)) \<or>
         (\<not> round_chunk n + HEADER_SIZE < sizeof_memblock \<and>
          (\<exists>s' a r as. Z_Malloc n t user env junk s
               = Some (Inr (set_user user (a + HEADER_SIZE) s', a + HEADER_SIZE)) \<and>
             zone_inv s' \<and> span_inv s' \<and> a \<noteq> 0 \<and> a + HEADER_SIZE \<noteq> 0 \<and>
             (blocks s a = None \<or> a \<in> set as) \<and>
             blocks s' a = Some r \<and> size_b r = round_chunk n \<and> tag r = t \<and>
             spans s' a = Some (round_chunk n + HEADER_SIZE) \<and>
             released s' = released s @ as \<and> mem s' = mem s \<and> slots s' = slots s \<and>
             memory_size s' = memory_size s \<and> same_outside {PU_CACHE, t} s s'))"
proof -
  let ?n = "round_chunk n"
  let ?m = "?n + HEADER_SIZE"
  obtain s1 as1 where pp: "purge_pass ?n s = Some (Inr s1)" and inv1: "zone_inv s1"
    and dr1: "drops s as1 s1" and so1: "same_outside {PU_CACHE} s s1"
    using purge_pass_total[OF inv] by blast
  have unf: "Z_Malloc n t user env junk s =
      (case malloc_loop env 0 ?m s1 of None \<Rightarrow> None | Some (Inl e) \<Rightarrow> Some (Inl e)
       | Some (Inr (s2, block)) \<Rightarrow> Some (register_block ?n t user junk block s2))"
    using n pp by (simp add: Z_Malloc_def Let_def)
  from malloc_loop_cases[OF inv1, of env 0 ?m]
  consider "malloc_loop env 0 ?m s1 = Some (Inl Fatal)"
    | "malloc_loop env 0 ?m s1 = Some (Inl BadAllocator)"
    | s2 a as2 where "malloc_loop env 0 ?m s1 = Some (Inr (s2\<lparr>spans := (spans s2)(a \<mapsto> ?m)\<rparr>, a))"
       "zone_inv s2" "a \<noteq> 0" "spans s2 a = None" "unat a + unat ?m < 2 ^ 64"
       "same_outside {PU_CACHE} s1 s2" "drops s1 as2 s2"
    by blast
  then show ?thesis
  proof cases
    case 1 then show ?thesis using unf by simp
  next
    case 2 then show ?thesis using unf by simp
  next
    case 3
    let ?s2 = "s2\<lparr>spans := (spans s2)(a \<mapsto> ?m)\<rparr>"
    have si2: "span_inv s2" using span_inv_drops[OF span_inv_drops[OF si dr1] 3(7)] .
    have fr2: "blocks s2 a = None" using span_fresh[OF si2 3(4)] .
    show ?thesis
    proof (cases "?m < sizeof_memblock")
      case True
      then have "register_block ?n t user junk a ?s2 = Inl Undefined"
        by (simp add: register_block_def)
      then show ?thesis using unf 3(1) True by simp
    next
      case False
      have nw: "unat ?n + unat HEADER_SIZE < 2 ^ 64" using header_fits[OF False] .
      have a32: "a + HEADER_SIZE \<noteq> 0"
      proof -
        have "sizeof_memblock \<le> ?m" using False by simp
        then have "32 \<le> unat ?m" by (simp add: sizeof_memblock_def word_le_nat_alt)
        then have "unat a + 32 < 2 ^ 64" using 3(5) by simp
        then show ?thesis using 3(3) by (rule payload_nonzero)
      qed
      obtain us where bk: "bucket ?s2 t us" using 3(2) vt by (auto simp: zone_inv_def)
      have inv2: "zone_inv ?s2" using 3(2) by simp
      have fr2': "blocks ?s2 a = None" using fr2 by simp
      have sp2: "spans ?s2 a = Some ?m" by simp
      from register_block_bucket[OF inv2 vt fr2' 3(3) a32 bk sp2 False, of ?n user junk]
      obtain s' r where rb: "register_block ?n t user junk a ?s2 = Inr (set_user user (a + HEADER_SIZE) s', a + HEADER_SIZE)"
        and r: "zone_inv s'" "same_outside {t} ?s2 s'" "blocks s' a = Some r" "size_b r = ?n" "tag r = t"
          "released s' = released ?s2" "mem s' = mem ?s2" "slots s' = slots ?s2" "memory_size s' = memory_size ?s2"
        and inf: "\<forall>x. x \<noteq> a \<longrightarrow> map_option info (blocks s' x) = map_option info (blocks ?s2 x)"
        and sp': "spans s' = spans ?s2"
        by blast
      have zm: "Z_Malloc n t user env junk s = Some (Inr (set_user user (a + HEADER_SIZE) s', a + HEADER_SIZE))"
        using unf 3(1) rb by simp
      have si': "span_inv s'"
      proof (rule span_inv_keep[OF si2, where a = a])
        fix x assume "x \<noteq> a"
        then show "map_option info (blocks s' x) = map_option info (blocks s2 x)" using inf by simp
      next
        fix x assume "x \<noteq> a"
        then show "spans s' x = spans s2 x" using sp' by simp
      next
        fix r' assume "blocks s' a = Some r'"
        then have "size_b r' = ?n" using r(3,4) by simp
        then show "spans s' a = Some (size_b r' + HEADER_SIZE) \<and> unat (size_b r') + unat HEADER_SIZE < 2 ^ 64"
          using sp' nw by simp
      qed
      have spa: "spans s' a = Some ?m" using sp' by simp
      have rel: "released s' = released s @ (as1 @ as2)"
        using r(6) dr1 3(7) by (simp add: drops_def)
      have fr: "mem s' = mem s" "slots s' = slots s" "memory_size s' = memory_size s"
        using r(7,8,9) drops_mem[OF dr1] drops_mem[OF 3(7)] by simp_all
      have so2: "same_outside {t} s2 s'" using r(2) by (simp add: same_outside_def)
      have so: "same_outside {PU_CACHE, t} s s'"
        using same_outside_trans[OF same_outside_trans[OF so1 3(6)] so2] by (simp add: insert_commute)
      have "blocks s a = None \<or> a \<in> set (as1 @ as2)"
      proof (rule ccontr)
        assume c: "\<not> (blocks s a = None \<or> a \<in> set (as1 @ as2))"
        then have "map_option info (blocks s1 a) = map_option info (blocks s a)"
          using dr1 by (simp add: drops_def)
        moreover have "map_option info (blocks s2 a) = map_option info (blocks s1 a)"
          using 3(7) c by (simp add: drops_def)
        ultimately show False using fr2 c by auto
      qed
      then have "\<exists>s' a r as. Z_Malloc n t user env junk s
               = Some (Inr (set_user user (a + HEADER_SIZE) s', a + HEADER_SIZE)) \<and>
             zone_inv s' \<and> span_inv s' \<and> a \<noteq> 0 \<and> a + HEADER_SIZE \<noteq> 0 \<and>
             (blocks s a = None \<or> a \<in> set as) \<and>
             blocks s' a = Some r \<and> size_b r = round_chunk n \<and> tag r = t \<and>
             spans s' a = Some (round_chunk n + HEADER_SIZE) \<and>
             released s' = released s @ as \<and> mem s' = mem s \<and> slots s' = slots s \<and>
             memory_size s' = memory_size s \<and> same_outside {PU_CACHE, t} s s'"
        using zm r(1,3,4,5) si' 3(3) a32 spa rel fr so by blast
      then show ?thesis using False by blast
    qed
  qed
qed

lemma Z_Malloc_total:
  assumes inv: "zone_inv s" and si: "span_inv s"
  shows "\<exists>res. Z_Malloc n t user env junk s = Some res \<and>
           (\<forall>s' p. res = Inr (s', p) \<longrightarrow> zone_inv s' \<and> span_inv s')"
proof (cases "n = 0")
  case True
  then show ?thesis using inv si by (simp add: Z_Malloc_def)
next
  case n: False
  show ?thesis
  proof (cases "valid_tag t")
    case True
    from Z_Malloc_valid[OF inv si n True, of user env junk] show ?thesis by auto
  next
    case False
    let ?n = "round_chunk n"
    obtain s1 as1 where pp: "purge_pass ?n s = Some (Inr s1)" and inv1: "zone_inv s1"
      using purge_pass_total[OF inv] by blast
    have unf: "Z_Malloc n t user env junk s =
      (case malloc_loop env 0 (?n + HEADER_SIZE) s1 of None \<Rightarrow> None | Some (Inl e) \<Rightarrow> Some (Inl e)
       | Some (Inr (s2, block)) \<Rightarrow> Some (register_block ?n t user junk block s2))"
      using n pp by (simp add: Z_Malloc_def Let_def)
    from malloc_loop_cases[OF inv1, of env 0 "?n + HEADER_SIZE"] show ?thesis
      unfolding unf using register_block_invalid[OF False] by auto
  qed
qed

lemma Z_Free_total:
  assumes inv: "zone_inv s" and si: "span_inv s"
  shows "\<exists>res. Z_Free p s = res \<and> (\<forall>s'. res = Inr s' \<longrightarrow> zone_inv s' \<and> span_inv s')"
proof (cases "p = 0 \<or> p - HEADER_SIZE = 0")
  case True
  then show ?thesis using inv si by (auto simp: Z_Free_def Let_def)
next
  case False
  show ?thesis
  proof (cases "blocks s (p - HEADER_SIZE)")
    case None
    then show ?thesis using False by (simp add: Z_Free_def Let_def)
  next
    case (Some b)
    obtain xs where bk: "bucket s (tag b) xs"
      using inv zone_invD[OF inv Some] by (auto simp: zone_inv_def)
    have "p - HEADER_SIZE \<in> set xs" using bk Some by (auto simp: bucket_def live_def)
    then obtain ys zs where xs: "xs = ys @ (p - HEADER_SIZE) # zs" by (auto dest: split_list)
    from Z_Free_bucket[OF inv Some bk[unfolded xs]]
    obtain s' where "Z_Free p s = Inr s'" "zone_inv s'" "drops s [p - HEADER_SIZE] s'" by auto
    then show ?thesis using span_inv_drops[OF si] by auto
  qed
qed

lemma Z_ChangeTag_total:
  assumes inv: "zone_inv s" and si: "span_inv s"
  shows "\<exists>res. Z_ChangeTag p t s = res \<and> (\<forall>s'. res = Inr s' \<longrightarrow> zone_inv s' \<and> span_inv s')"
proof (cases "p = 0")
  case True
  then show ?thesis using inv si by (auto simp: Z_ChangeTag_def Let_def)
next
  case False
  show ?thesis
  proof (cases "blocks s (p - HEADER_SIZE)")
    case None
    then show ?thesis using False by (simp add: Z_ChangeTag_def Let_def)
  next
    case (Some b)
    show ?thesis
    proof (cases "t = tag b")
      case True
      then show ?thesis using False Some inv si by (simp add: Z_ChangeTag_def Let_def)
    next
      case ne: False
      show ?thesis
      proof (cases "valid_tag t")
        case True
        obtain xs where bk: "bucket s (tag b) xs"
          using inv zone_invD[OF inv Some] by (auto simp: zone_inv_def)
        obtain us where bk1: "bucket s t us" using inv True by (auto simp: zone_inv_def)
        have "p - HEADER_SIZE \<in> set xs" using bk Some by (auto simp: bucket_def live_def)
        then obtain ys zs where xs: "xs = ys @ (p - HEADER_SIZE) # zs" by (auto dest: split_list)
        from Z_ChangeTag_bucket[OF inv Some ne True bk[unfolded xs] bk1]
        obtain s' r where zc: "Z_ChangeTag p t s = Inr s'" "zone_inv s'"
          and at: "blocks s' (p - HEADER_SIZE) = Some r" "size_b r = size_b b"
          and inf: "\<forall>x. x \<noteq> p - HEADER_SIZE \<longrightarrow> map_option info (blocks s' x) = map_option info (blocks s x)"
          and sp: "spans s' = spans s"
          by auto
        have "span_inv s'"
        proof (rule span_inv_keep[OF si, where a = "p - HEADER_SIZE"])
          fix x assume "x \<noteq> p - HEADER_SIZE"
          then show "map_option info (blocks s' x) = map_option info (blocks s x)" using inf by simp
        next
          fix x show "spans s' x = spans s x" using sp by simp
        next
          fix r' assume "blocks s' (p - HEADER_SIZE) = Some r'"
          then have "size_b r' = size_b b" using at by simp
          then show "spans s' (p - HEADER_SIZE) = Some (size_b r' + HEADER_SIZE) \<and>
                 unat (size_b r') + unat HEADER_SIZE < 2 ^ 64"
            using span_invD[OF si Some] sp by simp
        qed
        then show ?thesis using zc by simp
      next
        case iv: False
        have "Z_ChangeTag p t s = Inl Undefined"
          using False Some ne iv
          by (auto simp: Z_ChangeTag_def Let_def link_block_def split: option.splits)
        then show ?thesis by simp
      qed
    qed
  qed
qed

lemma step_inv:
  assumes inv: "zone_inv s" and si: "span_inv s"
  shows "\<exists>res. step x s = Some res \<and> (\<forall>s'. res = Inr s' \<longrightarrow> zone_inv s' \<and> span_inv s')"
proof (cases x)
  case (Malloc n t user env junk)
  from Z_Malloc_total[OF inv si, of n t user env junk]
  obtain res where "Z_Malloc n t user env junk s = Some res"
    "\<forall>s' p. res = Inr (s', p) \<longrightarrow> zone_inv s' \<and> span_inv s'"
    by blast
  then show ?thesis using Malloc by (cases res) auto
next
  case (Free p)
  then show ?thesis using Z_Free_total[OF inv si, of p] by simp
next
  case (ChangeTag p t)
  then show ?thesis using Z_ChangeTag_total[OF inv si, of p t] by simp
next
  case (FreeTags lo hi)
  obtain f where f: "\<forall>t. valid_tag t \<longrightarrow> bucket s t (f t)" using zone_inv_buckets[OF inv] by blast
  from Z_FreeTags_buckets[OF inv f, of lo hi]
  obtain s' where "Z_FreeTags lo hi s = Some (Inr s')" "zone_inv s'"
    "drops s (concat (map f [max lo (PU_FREE + 1)..min hi PU_CACHE])) s'" by blast
  then show ?thesis using FreeTags span_inv_drops[OF si] by auto
qed

lemma run_inv:
  assumes "zone_inv s" "span_inv s"
  shows "\<exists>res. run xs s = Some res \<and> (\<forall>s'. res = Inr s' \<longrightarrow> zone_inv s' \<and> span_inv s')"
  using assms
proof (induction xs arbitrary: s)
  case Nil
  then show ?case by simp
next
  case (Cons x xs)
  from step_inv[OF Cons.prems, of x]
  obtain res where st: "step x s = Some res"
    and r: "\<forall>s'. res = Inr s' \<longrightarrow> zone_inv s' \<and> span_inv s'" by blast
  show ?case
  proof (cases res)
    case (Inl e)
    then show ?thesis using st by simp
  next
    case (Inr s')
    then have "zone_inv s'" "span_inv s'" using r by simp_all
    from Cons.IH[OF this] show ?thesis using st Inr by simp
  qed
qed

lemma zone_inv_Z_Init: "zone_inv (Z_Init c m sl)"
  by (simp add: zone_inv_def Z_Init_def bucket_def live_def)

lemma span_inv_Z_Init: "span_inv (Z_Init c m sl)"
  by (simp add: span_inv_def Z_Init_def)

subsection \<open>Following next around a bucket\<close>

lemma ring_nth_link:
  assumes r: "ring bs xs" and i: "i < length xs"
  shows "link bs (xs ! i) (xs ! (Suc i mod length xs))"
proof (cases "Suc i < length xs")
  case True
  have "successively (link bs) xs" using r by (simp add: ring_def)
  from successively_nth[OF this True] True show ?thesis by simp
next
  case False
  then have e: "Suc i = length xs" using i by simp
  then have "xs ! i = last xs" using i by (metis diff_Suc_1 last_conv_nth length_0_conv nat.distinct(1))
  moreover have "xs ! 0 = hd xs" using i by (cases xs) auto
  ultimately show ?thesis using r e by (simp add: ring_def)
qed

lemma ring_follow:
  assumes r: "ring bs xs"
  shows "i < length xs \<Longrightarrow> follow bs k (xs ! i) = Some (xs ! ((i + k) mod length xs))"
proof (induction k arbitrary: i)
  case 0
  then show ?case by simp
next
  case (Suc k)
  from ring_nth_link[OF r Suc.prems]
  obtain b where b: "bs (xs ! i) = Some b" "next b = xs ! (Suc i mod length xs)"
    by (auto simp: link_def split: option.splits)
  have "0 < length xs" using Suc.prems by auto
  then have lt: "Suc i mod length xs < length xs" by simp
  have "follow bs (Suc k) (xs ! i) = follow bs k (xs ! (Suc i mod length xs))"
    using b by simp
  also have "\<dots> = Some (xs ! ((Suc i mod length xs + k) mod length xs))"
    by (rule Suc.IH[OF lt])
  also have "(Suc i mod length xs + k) mod length xs = (i + Suc k) mod length xs"
    by (simp add: mod_add_left_eq)
  finally show ?case .
qed

lemma bucket_circular:
  assumes inv: "zone_inv s" and bk: "bucket s t xs"
  shows "circular s t"
proof -
  have lv: "live s t = set xs" and d: "distinct xs" using bk by (auto simp: bucket_def)
  have card: "card (live s t) = length xs" using lv d by (simp add: distinct_card)
  have fin: "finite (live s t)" using lv by simp
  show ?thesis
  proof (cases "xs = []")
    case True
    then have "blockbytag s t = 0" using bk by (simp add: bucket_def)
    then show ?thesis using True lv by (simp add: circular_def)
  next
    case False
    have h: "blockbytag s t \<noteq> 0" "blockbytag s t = hd xs"
      using bucket_head_nonzero[OF inv bk False] by auto
    have r: "ring (blocks s) xs" using bk False by (simp add: bucket_def)
    have n0: "0 < length xs" using False by simp
    have h0: "hd xs = xs ! 0" using False by (simp add: hd_conv_nth)
    have f: "follow (blocks s) k (hd xs) = Some (xs ! (k mod length xs))" for k
      using ring_follow[OF r n0, of k] h0 by simp
    have 1: "follow (blocks s) (length xs) (hd xs) = Some (hd xs)" using f[of "length xs"] h0 by simp
    have fk: "follow (blocks s) k (hd xs) = Some (xs ! k)" if "k < length xs" for k
      using f[of k] that by simp
    have 2: "inj_on (\<lambda>k. follow (blocks s) k (hd xs)) {..<length xs}"
      by (rule inj_onI) (use fk d in \<open>auto simp: nth_eq_iff_index_eq\<close>)
    have 3: "(\<lambda>k. follow (blocks s) k (hd xs)) ` {..<length xs} = Some ` set xs"
    proof -
      have "(\<lambda>k. follow (blocks s) k (hd xs)) ` {..<length xs} = (\<lambda>k. Some (xs ! k)) ` {..<length xs}"
        by (rule image_cong) (use fk in auto)
      also have "\<dots> = Some ` ((\<lambda>k. xs ! k) ` {..<length xs})" by (simp add: image_image)
      also have "(\<lambda>k. xs ! k) ` {..<length xs} = set xs"
        by (metis atLeast_upt list.set_map map_nth)
      finally show ?thesis .
    qed
    have 4: "\<exists>b c. blocks s a = Some b \<and> blocks s (next b) = Some c \<and> prev c = a" if ax: "a \<in> set xs" for a
    proof -
      obtain i where i: "i < length xs" "a = xs ! i" using ax by (auto simp: in_set_conv_nth)
      from ring_nth_link[OF r i(1)] show ?thesis
        unfolding i(2) by (auto simp: link_def split: option.splits)
    qed
    have c2: "card (set xs) = length xs" using d by (simp add: distinct_card)
    have hn: "hd xs \<noteq> 0" using h by simp
    show ?thesis
      unfolding circular_def Let_def lv c2 h(2) using hn 1 2 3 4 False by auto
  qed
qed

lemmas eval_defs = Z_Init_def Z_Malloc_def round_chunk_def CHUNK_SIZE_def purge_pass_def
  malloc_loop.simps register_block_def link_block_def valid_tag_def PU_MAX_def PU_CACHE_def
  PU_FREE_def HEADER_SIZE_def sizeof_memblock_def set_user_def link_tail_def Z_FreeTags_def
  FreeTags_loop.simps free_loop.simps purge_loop.simps Z_Free_def unlink_def drop_head_def
  Z_ChangeTag_def short_of_def in_payload_def copy_over_def junk0_def Let_def

lemmas example_defs = boot_def grants_def refuses_once_def after_def returned_def
  recorded_size_def usable_def

subsection \<open>Rounding, and what an allocation keeps\<close>

lemma and_not_31: "(w :: 64 word) AND NOT 31 = push_bit 5 (drop_bit 5 w)"
proof -
  have "(31 :: 64 word) = mask 5" by (simp add: mask_eq_exp_minus_1)
  then show ?thesis
    by (auto simp: bit_eq_iff bit_simps)
qed

lemma unat_round_chunk:
  assumes "unat n + 31 < 2 ^ 64"
  shows "unat (round_chunk n) = ((unat n + 31) div 32) * 32"
proof -
  have a: "unat (n + 31) = unat n + 31"
    using assms by (simp add: unat_add_lem[THEN iffD1])
  have "round_chunk n = (n + 31) AND NOT 31"
    by (simp add: round_chunk_def CHUNK_SIZE_def add.commute)
  also have "\<dots> = push_bit 5 (drop_bit 5 (n + 31))"
    by (rule and_not_31)
  finally have "round_chunk n = push_bit 5 (drop_bit 5 (n + 31))" .
  then have "unat (round_chunk n) = take_bit 64 (push_bit 5 (drop_bit 5 (unat n + 31)))"
    by (simp add: unsigned_push_bit_eq unat_drop_bit_eq a)
  also have "push_bit 5 (drop_bit 5 (unat n + 31)) = ((unat n + 31) div 32) * 32"
    by (simp add: push_bit_eq_mult drop_bit_eq_div)
  also have "take_bit 64 (((unat n + 31) div 32) * 32) = ((unat n + 31) div 32) * 32"
  proof (rule take_bit_nat_eq_self)
    have "((unat n + 31) div 32) * 32 \<le> unat n + 31" by simp
    then show "((unat n + 31) div 32) * 32 < 2 ^ 64" using assms by linarith
  qed
  finally show ?thesis .
qed

lemma round_chunk_ge:
  assumes "unat n + 31 < 2 ^ 64"
  shows "n \<le> round_chunk n"
proof -
  have "unat n \<le> ((unat n + 31) div 32) * 32" by presburger
  then show ?thesis using unat_round_chunk[OF assms] by (simp add: word_le_nat_alt)
qed

lemma round_chunk_fits:
  assumes "unat n + 63 < 2 ^ 64"
  shows "unat (round_chunk n + HEADER_SIZE) = unat (round_chunk n) + 32"
    and "\<not> round_chunk n + HEADER_SIZE < sizeof_memblock"
    and "unat n \<le> unat (round_chunk n)"
proof -
  have a: "unat n + 31 < 2 ^ 64" using assms by simp
  have u: "unat (round_chunk n) = ((unat n + 31) div 32) * 32" using unat_round_chunk[OF a] .
  have "((unat n + 31) div 32) * 32 \<le> unat n + 31" by simp
  then have b: "unat (round_chunk n) + 32 < 2 ^ 64" using assms u by linarith
  have "unat (round_chunk n + 32) = (unat (round_chunk n) + 32) mod 2 ^ 64"
    by (simp add: unat_word_ariths)
  also have "\<dots> = unat (round_chunk n) + 32" using b by simp
  finally show c: "unat (round_chunk n + HEADER_SIZE) = unat (round_chunk n) + 32"
    by (simp add: HEADER_SIZE_32)
  show "\<not> round_chunk n + HEADER_SIZE < sizeof_memblock"
    using c by (simp add: word_less_nat_alt sizeof_memblock_def)
  show "unat n \<le> unat (round_chunk n)"
    using round_chunk_ge[OF a] by (simp add: word_le_nat_alt)
qed

lemma malloc_loop_span_aux:
  assumes "malloc_loop env i n s = Some y"
  shows "\<forall>s' a. y = Inr (s', a) \<longrightarrow> spans s' a = Some n"
proof (rule malloc_loop.raw_induct[where P = "\<lambda>env i n s y. \<forall>s' a. y = Inr (s', a) \<longrightarrow> spans s' a = Some n", OF _ assms])
  fix f :: "(nat \<Rightarrow> addr) \<Rightarrow> nat \<Rightarrow> size_t \<Rightarrow> zone \<Rightarrow> (error + zone \<times> addr) option"
  fix env i n s y
  assume ih: "\<And>env i n s y. f env i n s = Some y \<Longrightarrow> \<forall>s' a. y = Inr (s', a) \<longrightarrow> spans s' a = Some n"
  assume b: "(let block = env i in
      if block \<noteq> 0 then
        (if spans s block = None \<and> unat block + unat n < 2 ^ 64
         then Some (Inr (s\<lparr>spans := (spans s)(block \<mapsto> n)\<rparr>, block))
         else Some (Inl BadAllocator))
      else if blockbytag s PU_CACHE = 0 then Some (Inl Fatal)
      else
        (case Z_FreeTags PU_CACHE PU_CACHE s of
           None \<Rightarrow> None
         | Some (Inl e) \<Rightarrow> Some (Inl e)
         | Some (Inr s') \<Rightarrow> f env (Suc i) n s')) = Some y"
  show "\<forall>s' a. y = Inr (s', a) \<longrightarrow> spans s' a = Some n"
    using b ih by (auto simp: Let_def split: if_splits option.splits sum.splits)
qed

lemma malloc_loop_span:
  "malloc_loop env i n s = Some (Inr (s', a)) \<Longrightarrow> spans s' a = Some n"
  using malloc_loop_span_aux by blast

lemma link_block_spans:
  assumes "link_block t b s = Inr s'"
  shows "spans s' = spans s"
  using assms by (auto simp: link_block_def split: if_splits option.splits)

lemma Z_Malloc_records:
  assumes "n \<noteq> 0" "Z_Malloc n t user env junk s = Some (Inr (s', p))"
  shows "\<exists>r. blocks s' (p - HEADER_SIZE) = Some r \<and> size_b r = round_chunk n \<and>
           spans s' (p - HEADER_SIZE) = Some (round_chunk n + HEADER_SIZE) \<and>
           \<not> round_chunk n + HEADER_SIZE < sizeof_memblock"
proof -
  let ?m = "round_chunk n + HEADER_SIZE"
  obtain s1 where 1: "purge_pass (round_chunk n) s = Some (Inr s1)"
    using assms by (auto simp: Z_Malloc_def Let_def split: option.splits sum.splits)
  obtain s2 a where 2: "malloc_loop env 0 ?m s1 = Some (Inr (s2, a))"
    using assms 1 by (auto simp: Z_Malloc_def Let_def split: option.splits sum.splits)
  have sp: "spans s2 a = Some ?m" using malloc_loop_span[OF 2] .
  have 3: "register_block (round_chunk n) t user junk a s2 = Inr (s', p)"
    using assms 1 2 by (simp add: Z_Malloc_def Let_def)
  have fit: "\<not> ?m < sizeof_memblock"
    using 3 sp by (auto simp: register_block_def split: if_splits)
  obtain s3 where 4: "link_block t a (s2\<lparr>blocks := (blocks s2)(a \<mapsto> junk)\<rparr>) = Inr s3"
    using 3 sp fit by (auto simp: register_block_def split: sum.splits)
  have sp3: "spans s3 = spans s2" using link_block_spans[OF 4] by simp
  have "p = a + HEADER_SIZE \<and> spans s' = spans s3 \<and>
        (\<exists>r. blocks s' a = Some r \<and> size_b r = round_chunk n)"
    using 3 sp fit 4 by (auto simp: register_block_def Let_def split: option.splits)
  then show ?thesis using sp sp3 fit by auto
qed

lemma in_payload_span:
  assumes "spans s (p - HEADER_SIZE) = Some m" "unat HEADER_SIZE + unat off + unat k \<le> unat m"
  shows "in_payload s p off k"
  using assms by (simp add: in_payload_def)

lemma in_payload_whole:
  assumes "spans s (p - HEADER_SIZE) = Some (sz + HEADER_SIZE)" "unat sz + unat HEADER_SIZE < 2 ^ 64"
    and "unat off + unat k \<le> unat sz"
  shows "in_payload s p off k"
proof (rule in_payload_span[OF assms(1)])
  have "unat (sz + HEADER_SIZE) = (unat sz + unat HEADER_SIZE) mod 2 ^ 64"
    by (simp add: unat_word_ariths)
  also have "\<dots> = unat sz + unat HEADER_SIZE" using assms(2) by simp
  finally show "unat HEADER_SIZE + unat off + unat k \<le> unat (sz + HEADER_SIZE)"
    using assms(3) by simp
qed

lemma link_tail_dom:
  assumes "link_tail h b bs = Some bs'" "bs x \<noteq> None"
  shows "bs' x \<noteq> None"
  using assms by (auto simp: link_tail_def Let_def split: option.splits if_splits)

lemma link_block_keeps:
  assumes "link_block t b s = Inr s'"
  shows "released s' = released s" "blocks s x \<noteq> None \<Longrightarrow> blocks s' x \<noteq> None"
  using assms link_tail_dom[of "blockbytag s t" b "blocks s" _ x]
  by (auto simp: link_block_def split: if_splits option.splits)

lemma register_block_keeps:
  assumes "register_block n t user junk a s = Inr (s', p)"
  shows "released s' = released s" "blocks s x \<noteq> None \<Longrightarrow> blocks s' x \<noteq> None"
proof -
  let ?s0 = "s\<lparr>blocks := (blocks s)(a \<mapsto> junk)\<rparr>"
  obtain m where m: "spans s a = Some m" "\<not> m < sizeof_memblock"
    using assms by (auto simp: register_block_def split: option.splits if_splits)
  obtain s1 where 1: "link_block t a ?s0 = Inr s1"
    using assms m by (auto simp: register_block_def split: sum.splits)
  obtain b where 2: "blocks s1 a = Some b"
    using assms m 1 by (auto simp: register_block_def split: option.splits)
  have s': "s' = set_user user (a + HEADER_SIZE)
      (s1\<lparr>free_memory := free_memory s1 - ucast n,
          blocks := (blocks s1)(a \<mapsto> b\<lparr>size_b := n, tag := t mod 256\<rparr>)\<rparr>)"
    using assms m 1 2 by (auto simp: register_block_def Let_def)
  show "released s' = released s" using link_block_keeps(1)[OF 1] s' by simp
  show "blocks s x \<noteq> None \<Longrightarrow> blocks s' x \<noteq> None"
    using link_block_keeps(2)[OF 1, of x] s' by simp
qed

subsection \<open>Reading the abstractions\<close>

lemma zone_inv_after: "zone_inv (after ops (boot c))"
proof -
  from run_inv[OF zone_inv_Z_Init span_inv_Z_Init, of ops c "\<lambda>_. 0" "\<lambda>_. 0"]
  obtain res where r: "run ops (boot c) = Some res" "\<forall>s'. res = Inr s' \<longrightarrow> zone_inv s'"
    by (auto simp: boot_def)
  show ?thesis
  proof (cases res)
    case (Inl e)
    then show ?thesis using r zone_inv_Z_Init[of c] by (simp add: after_def boot_def)
  next
    case (Inr s')
    then show ?thesis using r by (simp add: after_def)
  qed
qed

lemma span_inv_after: "span_inv (after ops (boot c))"
proof -
  from run_inv[OF zone_inv_Z_Init span_inv_Z_Init, of ops c "\<lambda>_. 0" "\<lambda>_. 0"]
  obtain res where r: "run ops (boot c) = Some res" "\<forall>s'. res = Inr s' \<longrightarrow> span_inv s'"
    by (auto simp: boot_def)
  show ?thesis
  proof (cases res)
    case (Inl e)
    then show ?thesis using r span_inv_Z_Init[of c] by (simp add: after_def boot_def)
  next
    case (Inr s')
    then show ?thesis using r by (simp add: after_def)
  qed
qed

lemma bucket_empty_iff: "bucket s t [] \<longleftrightarrow> blockbytag s t = 0 \<and> live s t = {}"
  by (auto simp: bucket_def)

lemma same_outside_block:
  assumes "same_outside T s s'" "blocks s x = Some r" "tag r \<notin> T"
  shows "blocks s' x = Some r"
  using assms by (simp add: same_outside_def)

lemma same_outside_block_rev:
  assumes "same_outside T s s'" "blocks s' x = Some r" "tag r \<notin> T"
  shows "blocks s x = Some r"
  using assms by (simp add: same_outside_def)

lemma same_outside_head:
  assumes "same_outside T s s'" "t \<notin> T"
  shows "blockbytag s' t = blockbytag s t"
  using assms by (simp add: same_outside_def)

lemma drops_released: "drops s as s' \<Longrightarrow> released s' = released s @ as"
  by (simp add: drops_def)

lemma drops_free_memory:
  "drops s as s' \<Longrightarrow> free_memory s' = free_memory s + sum_list (map (charge s) as)"
  by (simp add: drops_def)

subsection \<open>The int comparison, and the byte ranges of Z\_Realloc\<close>

lemma sint_add_exact:
  assumes "- (2 ^ 31) \<le> sint (a :: cint) + sint b" "sint a + sint b < 2 ^ 31"
  shows "sint (a + b) = sint a + sint b"
  using assms by (simp add: sint_word_add signed_take_bit_int_eq_self)

lemma sint_ucast_exact:
  assumes "unat (w :: size_t) < 2 ^ 31"
  shows "sint (ucast w :: cint) = int (unat w)"
proof -
  have "int (unat w) < int (2 ^ 31)" using assms by (simp only: of_nat_less_iff)
  then have u: "uint w < 2 ^ 31" by simp
  have z: "0 \<le> uint w" by simp
  have lo: "- (2 ^ 31) \<le> uint w" by (rule order_trans[OF _ z]) simp
  have "uint (ucast w :: cint) = take_bit 32 (uint w)"
    by (simp add: unsigned_ucast_eq)
  also have "\<dots> = uint w"
    by (rule take_bit_int_eq_self) (use u z in simp_all)
  finally have e: "uint (ucast w :: cint) = uint w" .
  have "sint (ucast w :: cint) = signed_take_bit 31 (uint (ucast w :: cint))"
    by (simp add: sint_uint)
  also have "\<dots> = uint w"
    unfolding e by (rule signed_take_bit_int_eq_self[OF lo u])
  finally show ?thesis by simp
qed

lemma short_of_exact:
  assumes "unat m + 32 < 2 ^ 31"
    and "- (2 ^ 31) \<le> sint (free_memory s) + sint (memory_size s)"
    and "sint (free_memory s) + sint (memory_size s) < 2 ^ 31"
  shows "short_of m s \<longleftrightarrow> sint (free_memory s) + sint (memory_size s) < int (unat m) + 32"
proof -
  have "unat m + unat (32 :: size_t) < 2 ^ 64" using assms(1) by simp
  then have "unat (m + 32) = unat m + 32" by (simp add: unat_add_lem[THEN iffD1])
  then have "sint (ucast (m + 32) :: cint) = int (unat m) + 32"
    using sint_ucast_exact[of "m + 32"] assms(1) by simp
  then show ?thesis
    using sint_add_exact[OF assms(2,3)] by (simp add: short_of_def HEADER_SIZE_32)
qed

lemma Z_Malloc_mem:
  assumes inv: "zone_inv s" and si: "span_inv s" and z: "Z_Malloc n t user env junk s = Some (Inr (s', p))"
  shows "mem s' = mem s"
proof (cases "n = 0")
  case True
  then show ?thesis using z by (auto simp: Z_Malloc_def)
next
  case n: False
  show ?thesis
  proof (cases "valid_tag t")
    case True
    from Z_Malloc_valid[OF inv si n True, of user env junk] z show ?thesis by auto
  next
    case False
    obtain s1 where pp: "purge_pass (round_chunk n) s = Some (Inr s1)"
      using purge_pass_total[OF inv] by blast
    have "Z_Malloc n t user env junk s \<noteq> Some (Inr (s', p))"
      using n pp register_block_invalid[OF False]
      by (auto simp: Z_Malloc_def Let_def split: option.splits sum.splits)
    then show ?thesis using z by simp
  qed
qed

lemma Z_Malloc_inv:
  assumes inv: "zone_inv s" and si: "span_inv s"
    and z: "Z_Malloc n t user env junk s = Some (Inr (s', p))"
  shows "zone_inv s'" "span_inv s'"
  using Z_Malloc_total[OF inv si, of n t user env junk] z by auto

lemma Z_Free_held:
  assumes inv: "zone_inv s" and la: "blocks s (p - HEADER_SIZE) = Some b"
  shows "\<exists>s'. Z_Free p s = Inr s' \<and> zone_inv s' \<and> drops s [p - HEADER_SIZE] s'"
proof -
  obtain xs where bk: "bucket s (tag b) xs"
    using inv zone_invD[OF inv la] by (auto simp: zone_inv_def)
  have "p - HEADER_SIZE \<in> set xs" using bk la by (auto simp: bucket_def live_def)
  then obtain ys zs where xs: "xs = ys @ (p - HEADER_SIZE) # zs" by (auto dest: split_list)
  from Z_Free_bucket[OF inv la bk[unfolded xs]] show ?thesis by auto
qed

lemma zone_inv_mem [simp]: "zone_inv (s\<lparr>mem := m\<rparr>) = zone_inv s"
  by (simp add: zone_inv_def bucket_def live_def)

lemma span_inv_mem [simp]: "span_inv (s\<lparr>mem := m\<rparr>) = span_inv s"
  by (simp add: span_inv_def)

lemma copy_low:
  assumes "(i :: size_t) < sz" "sz < n"
  shows "\<not> (i - sz < n - sz)"
  using assms by unat_arith

lemma fill_high:
  assumes "(sz :: size_t) \<le> i" "i < n"
  shows "i - sz < n - sz"
  using assms by unat_arith

lemma outside_both:
  assumes "\<not> ((x :: size_t) - p < n)" "sz < n"
  shows "\<not> (x - (p + sz) < n - sz)" "\<not> x - p < sz"
proof -
  define d where "d = x - p"
  have e: "x - (p + sz) = d - sz" by (simp add: d_def)
  have "\<not> d < n" using assms(1) by (simp add: d_def)
  then have r: "\<not> (d - sz < n - sz)" "\<not> d < sz" using assms(2) by unat_arith+
  from r(1) show "\<not> (x - (p + sz) < n - sz)" unfolding e .
  from r(2) show "\<not> x - p < sz" unfolding d_def .
qed

section \<open>The claims\<close>

text \<open>
  C1. Whatever sequence of allocate, free, changeTag and freeAllInRange runs from the
  state left by \<^verbatim>\<open>Z_Init\<close>, the run ends (with a state, with the fatal error, or at
  an operation outside the contract), and in every state it reaches each tag's bucket is a
  circular doubly-linked list of exactly the blocks that carry the tag: the bucket has a
  head if and only if the tag's live count \<open>N\<close> is not zero, \<open>N\<close> steps of
  \<open>next\<close> from the head lead back to the head, and the first \<open>N\<close> steps visit every
  live block of the tag, each once.
\<close>

theorem buckets_stay_circular:
  "\<exists>res. run ops (Z_Init c m sl) = Some res \<and>
         (\<forall>s t. res = Inr s \<and> valid_tag t \<longrightarrow> circular s t)"
proof -
  from run_inv[OF zone_inv_Z_Init span_inv_Z_Init, of ops c m sl]
  obtain res where r: "run ops (Z_Init c m sl) = Some res" "\<forall>s'. res = Inr s' \<longrightarrow> zone_inv s'"
    by blast
  have "circular s t" if rs: "res = Inr s" and vt: "valid_tag t" for s t
  proof -
    have inv: "zone_inv s" using r(2) rs by simp
    then obtain xs where "bucket s t xs" using vt by (auto simp: zone_inv_def)
    then show ?thesis using bucket_circular[OF inv] by simp
  qed
  then show ?thesis using r(1) by blast
qed

theorem buckets_stay_circular_witness:
  "\<exists>s. run [Malloc 10 6 None (\<lambda>_. 64) junk0, Malloc 40 6 None (\<lambda>_. 128) junk0,
            Malloc 1 1 None (\<lambda>_. 192) junk0, ChangeTag 160 1, Free 96, FreeTags 0 7]
           (Z_Init 0 (\<lambda>_. 0) (\<lambda>_. 0)) = Some (Inr s) \<and> circular s PU_CACHE"
proof -
  let ?ops = "[Malloc 10 6 None (\<lambda>_. 64) junk0, Malloc 40 6 None (\<lambda>_. 128) junk0,
            Malloc 1 1 None (\<lambda>_. 192) junk0, ChangeTag 160 1, Free 96, FreeTags 0 7]"
  obtain res where r: "run ?ops (Z_Init 0 (\<lambda>_. 0) (\<lambda>_. 0)) = Some res"
    and c: "\<forall>s t. res = Inr s \<and> valid_tag t \<longrightarrow> circular s t"
    using buckets_stay_circular[of ?ops 0 "\<lambda>_. 0" "\<lambda>_. 0"] by blast
  have "\<exists>s. run ?ops (Z_Init 0 (\<lambda>_. 0) (\<lambda>_. 0)) = Some (Inr s)"
    by (simp add: eval_defs)
  then obtain s where "run ?ops (Z_Init 0 (\<lambda>_. 0) (\<lambda>_. 0)) = Some (Inr s)" ..
  with r c valid_CACHE show ?thesis by auto
qed

text \<open>
  C2, as amended. In a state that satisfies the invariants, for every size \<open>n > 0\<close>
  that is at most \<open>2^64 - 64\<close> (so that neither the rounding nor the sum with the
  header wraps around in \<^verbatim>\<open>size_t\<close>) and every valid tag, allocate terminates. Let
  \<open>s1\<close> be the state after the budget pass and \<open>xs\<close> its CACHE bucket, from the oldest
  block to the newest. If the first request to the external allocator is answered, the
  block is registered in \<open>s1\<close>. If it fails and the CACHE bucket is empty, the fatal
  error is raised. If it fails and the bucket is not empty, the whole bucket is evicted,
  oldest first (the released spans are \<open>xs\<close>, in this order, and the bucket is empty
  afterwards), and the request is made again: answered, the block is registered; failed,
  the bucket now being empty, the fatal error is raised. So allocate either raises the
  fatal error or returns a non-null payload address of a block that is held and
  registered under the tag, whose recorded size is at least \<open>n\<close> and lies wholly in the
  span behind the header (an answer of the external allocator that breaks its contract
  apart); it never returns null.
\<close>

theorem allocate_returns_or_dies:
  assumes "zone_inv s" and "span_inv s" and "n \<noteq> 0" and "unat n + 63 < 2 ^ 64"
    and "valid_tag t"
  shows "\<exists>s1 xs. purge_pass (round_chunk n) s = Some (Inr s1) \<and> zone_inv s1 \<and>
           bucket s1 PU_CACHE xs \<and>
           (if env 0 \<noteq> 0 then
              Z_Malloc n t user env junk s =
                (if spans s1 (env 0) = None \<and>
                    unat (env 0) + unat (round_chunk n + HEADER_SIZE) < 2 ^ 64
                 then Some (register_block (round_chunk n) t user junk (env 0)
                        (s1\<lparr>spans := (spans s1)(env 0 \<mapsto> round_chunk n + HEADER_SIZE)\<rparr>))
                 else Some (Inl BadAllocator))
            else if xs = [] then Z_Malloc n t user env junk s = Some (Inl Fatal)
            else (\<exists>s2. Z_FreeTags PU_CACHE PU_CACHE s1 = Some (Inr s2) \<and> zone_inv s2 \<and>
                    bucket s2 PU_CACHE [] \<and> released s2 = released s1 @ xs \<and>
                    same_outside {PU_CACHE} s1 s2 \<and>
                    Z_Malloc n t user env junk s =
                      (if env 1 = 0 then Some (Inl Fatal)
                       else if spans s2 (env 1) = None \<and>
                               unat (env 1) + unat (round_chunk n + HEADER_SIZE) < 2 ^ 64
                         then Some (register_block (round_chunk n) t user junk (env 1)
                                (s2\<lparr>spans := (spans s2)(env 1 \<mapsto> round_chunk n + HEADER_SIZE)\<rparr>))
                       else Some (Inl BadAllocator)))) \<and>
           (Z_Malloc n t user env junk s = Some (Inl Fatal) \<or>
            Z_Malloc n t user env junk s = Some (Inl BadAllocator) \<or>
            (\<exists>s' p r. Z_Malloc n t user env junk s = Some (Inr (s', p)) \<and> p \<noteq> 0 \<and>
                zone_inv s' \<and> span_inv s' \<and>
                blocks s' (p - HEADER_SIZE) = Some r \<and> tag r = t \<and>
                size_b r = round_chunk n \<and> n \<le> size_b r \<and> in_payload s' p 0 (size_b r) \<and>
                slots s' = slots (set_user user p s)))"
proof -
  let ?n = "round_chunk n"
  let ?m = "?n + HEADER_SIZE"
  obtain s1 where pp: "purge_pass ?n s = Some (Inr s1)" and inv1: "zone_inv s1"
    using purge_pass_total[OF assms(1)] by blast
  obtain xs where bk: "bucket s1 PU_CACHE xs"
    using inv1 valid_CACHE by (auto simp: zone_inv_def)
  have unf: "Z_Malloc n t user env junk s =
      (case malloc_loop env 0 ?m s1 of None \<Rightarrow> None | Some (Inl e) \<Rightarrow> Some (Inl e)
       | Some (Inr (s2, block)) \<Rightarrow> Some (register_block ?n t user junk block s2))"
    using assms(3) pp by (simp add: Z_Malloc_def Let_def)
  have A: "if env 0 \<noteq> 0 then
              Z_Malloc n t user env junk s =
                (if spans s1 (env 0) = None \<and> unat (env 0) + unat ?m < 2 ^ 64
                 then Some (register_block ?n t user junk (env 0)
                        (s1\<lparr>spans := (spans s1)(env 0 \<mapsto> ?m)\<rparr>))
                 else Some (Inl BadAllocator))
            else if xs = [] then Z_Malloc n t user env junk s = Some (Inl Fatal)
            else (\<exists>s2. Z_FreeTags PU_CACHE PU_CACHE s1 = Some (Inr s2) \<and> zone_inv s2 \<and>
                    bucket s2 PU_CACHE [] \<and> released s2 = released s1 @ xs \<and>
                    same_outside {PU_CACHE} s1 s2 \<and>
                    Z_Malloc n t user env junk s =
                      (if env 1 = 0 then Some (Inl Fatal)
                       else if spans s2 (env 1) = None \<and> unat (env 1) + unat ?m < 2 ^ 64
                         then Some (register_block ?n t user junk (env 1)
                                (s2\<lparr>spans := (spans s2)(env 1 \<mapsto> ?m)\<rparr>))
                       else Some (Inl BadAllocator)))"
  proof (cases "env 0 = 0")
    case False
    then show ?thesis unfolding unf using malloc_loop_answer[of env 0 ?m s1] by simp
  next
    case e: True
    show ?thesis
    proof (cases "xs = []")
      case True
      then have "blockbytag s1 PU_CACHE = 0" using bk by (simp add: bucket_def)
      then show ?thesis unfolding unf using malloc_loop_fatal[of env 0 s1 ?m] e True by simp
    next
      case False
      from malloc_loop_retry[where env = env and i = 0 and n = ?m, OF inv1 bk e False]
      obtain s2 where ft: "Z_FreeTags PU_CACHE PU_CACHE s1 = Some (Inr s2)" and r: "zone_inv s2"
        "bucket s2 PU_CACHE []" "same_outside {PU_CACHE} s1 s2" "drops s1 xs s2"
        and 1: "malloc_loop env 0 ?m s1 = malloc_loop env (Suc 0) ?m s2"
        and 2: "malloc_loop env (Suc 0) ?m s2 =
             (if env (Suc 0) = 0 then Some (Inl Fatal)
              else if spans s2 (env (Suc 0)) = None \<and> unat (env (Suc 0)) + unat ?m < 2 ^ 64
                then Some (Inr (s2\<lparr>spans := (spans s2)(env (Suc 0) \<mapsto> ?m)\<rparr>, env (Suc 0)))
              else Some (Inl BadAllocator))" by blast
      have "Z_Malloc n t user env junk s =
                      (if env 1 = 0 then Some (Inl Fatal)
                       else if spans s2 (env 1) = None \<and> unat (env 1) + unat ?m < 2 ^ 64
                         then Some (register_block ?n t user junk (env 1)
                                (s2\<lparr>spans := (spans s2)(env 1 \<mapsto> ?m)\<rparr>))
                       else Some (Inl BadAllocator))"
        unfolding unf 1 2 by simp
      then show ?thesis using e False ft r drops_released[OF r(4)] by auto
    qed
  qed
  have fit: "\<not> ?m < sizeof_memblock" using round_chunk_fits(2)[OF assms(4)] .
  have nw: "unat ?n + unat HEADER_SIZE < 2 ^ 64" using header_fits[OF fit] .
  have ge: "n \<le> ?n" using round_chunk_fits(3)[OF assms(4)] by (simp add: word_le_nat_alt)
  from Z_Malloc_valid[OF assms(1,2,3,5), of user env junk] fit
  consider "Z_Malloc n t user env junk s = Some (Inl Fatal)"
    | "Z_Malloc n t user env junk s = Some (Inl BadAllocator)"
    | s' a r where "Z_Malloc n t user env junk s
               = Some (Inr (set_user user (a + HEADER_SIZE) s', a + HEADER_SIZE))"
        "zone_inv s'" "span_inv s'" "a + HEADER_SIZE \<noteq> 0" "blocks s' a = Some r" "size_b r = ?n"
        "tag r = t" "spans s' a = Some ?m" "slots s' = slots s"
    by blast
  then have B: "Z_Malloc n t user env junk s = Some (Inl Fatal) \<or>
            Z_Malloc n t user env junk s = Some (Inl BadAllocator) \<or>
            (\<exists>s' p r. Z_Malloc n t user env junk s = Some (Inr (s', p)) \<and> p \<noteq> 0 \<and>
                zone_inv s' \<and> span_inv s' \<and>
                blocks s' (p - HEADER_SIZE) = Some r \<and> tag r = t \<and>
                size_b r = ?n \<and> n \<le> size_b r \<and> in_payload s' p 0 (size_b r) \<and>
                slots s' = slots (set_user user p s))"
  proof cases
    case 1 then show ?thesis by simp
  next
    case 2 then show ?thesis by simp
  next
    case (3 s' a r)
    let ?p = "a + HEADER_SIZE"
    let ?s = "set_user user ?p s'"
    have sl: "slots ?s = slots (set_user user ?p s)"
      using 3(9) by (cases user) (simp_all add: set_user_def)
    have sp: "spans ?s (?p - HEADER_SIZE) = Some (?n + HEADER_SIZE)" using 3(8) by simp
    have ip: "in_payload ?s ?p 0 (size_b r)"
      unfolding 3(6) by (rule in_payload_whole[OF sp nw]) simp
    have "Z_Malloc n t user env junk s = Some (Inr (?s, ?p)) \<and> ?p \<noteq> 0 \<and>
                zone_inv ?s \<and> span_inv ?s \<and>
                blocks ?s (?p - HEADER_SIZE) = Some r \<and> tag r = t \<and>
                size_b r = ?n \<and> n \<le> size_b r \<and> in_payload ?s ?p 0 (size_b r) \<and>
                slots ?s = slots (set_user user ?p s)"
      using 3 sl ip ge by simp
    then show ?thesis by blast
  qed
  show ?thesis using pp inv1 bk A B by blast
qed

theorem allocate_returns_or_dies_witness:
  "\<exists>s' r. Z_Malloc 10 1 None (refuses_once 128) junk0
        (after [Malloc 10 6 None (grants 64) junk0, Malloc 40 6 None (grants 256) junk0] (boot 0))
       = Some (Inr (s', 160)) \<and>
     zone_inv s' \<and> blocks s' 128 = Some r \<and> tag r = 1 \<and> size_b r = 32 \<and>
     in_payload s' 160 0 32 \<and> released s' = [64, 256]"
proof -
  let ?s = "after [Malloc 10 6 None (grants 64) junk0, Malloc 40 6 None (grants 256) junk0] (boot 0)"
  have inv: "zone_inv ?s" by (rule zone_inv_after)
  have si: "span_inv ?s" by (rule span_inv_after)
  have h: "(10 :: size_t) \<noteq> 0" "unat (10 :: size_t) + 63 < 2 ^ 64" "valid_tag 1"
    by (simp_all add: valid_tag_def PU_MAX_def)
  obtain s' where z: "Z_Malloc 10 1 None (refuses_once 128) junk0 ?s = Some (Inr (s', 160))"
    and rel: "released s' = [64, 256]"
    by (simp add: eval_defs example_defs)
  have rc: "round_chunk 10 = 32" by (simp add: round_chunk_def CHUNK_SIZE_def)
  have hs: "(160 :: addr) - HEADER_SIZE = 128" by (simp add: HEADER_SIZE_32)
  from allocate_returns_or_dies[OF inv si h, of "refuses_once 128" None junk0]
  obtain r where "zone_inv s'" "blocks s' 128 = Some r" "tag r = 1" "size_b r = 32"
    "in_payload s' 160 0 32"
    unfolding z rc using hs by auto
  then show ?thesis using z rel by blast
qed

text \<open>
  C2 as stated fails where the arithmetic on the size wraps around. A request of
  \<open>2^64 - 1\<close> bytes is rounded to 0: the external allocator is asked for the header
  alone, and the payload address that allocate returns has no byte of the span behind it,
  so it is not usable for the size requested. A request of \<open>2^64 - 32\<close> bytes makes
  the sum with the header wrap around to 0: the external allocator is asked for 0 bytes
  and the header is written outside of what it answers with.
\<close>

theorem allocate_returns_or_dies_counterexample:
  "valid_tag 1 \<and>
   map_option snd (returned (Z_Malloc (- 1) 1 None (grants 64) junk0 (boot 0))) = Some 96 \<and>
   map_option (usable (- 1)) (returned (Z_Malloc (- 1) 1 None (grants 64) junk0 (boot 0))) = Some False \<and>
   Z_Malloc (- 32) 1 None (grants 64) junk0 (boot 0) = Some (Inl Undefined)"
  by (simp add: eval_defs example_defs unsigned_minus_1_eq_mask mask_eq_exp_minus_1)

text \<open>
  C3, as amended. Take a state that satisfies the invariant, with CACHE bucket \<open>xs\<close>
  listed from its head (the oldest block), a ceiling \<open>memory_size > 0\<close>, and a size
  \<open>n > 0\<close> whose rounded value plus the header is below \<open>2^31\<close>, so that the cast to
  \<^verbatim>\<open>int\<close> of line 150 keeps it; let \<open>free_memory + memory_size\<close> not overflow
  \<^verbatim>\<open>int\<close> and be less than the rounded size plus the header. Then allocate, before it
  requests storage, evicts the first \<open>k\<close> blocks of \<open>xs\<close>, oldest first: they are
  released in the order of the bucket, the budget is credited with their sizes and the
  rest of the bucket stays. At least one block is evicted when the bucket is not empty,
  and the pass stops as soon as the comparison of line 161 finds the headroom sufficient
  (it was short after each of the evictions before the \<open>k\<close>-th) or the block that was the
  tail at the start has been evicted (\<open>k\<close> is the length of \<open>xs\<close>).
\<close>

theorem proactive_eviction_oldest_first:
  assumes "zone_inv s" and "bucket s PU_CACHE xs" and "n \<noteq> 0"
    and "0 < sint (memory_size s)"
    and "unat (round_chunk n) + 32 < 2 ^ 31"
    and "- (2 ^ 31) \<le> sint (free_memory s) + sint (memory_size s)"
    and "sint (free_memory s) + sint (memory_size s) < 2 ^ 31"
    and "sint (free_memory s) + sint (memory_size s) < int (unat (round_chunk n)) + 32"
  shows "\<exists>s1 k. purge_pass (round_chunk n) s = Some (Inr s1) \<and>
           Z_Malloc n t user env junk s =
             (case malloc_loop env 0 (round_chunk n + HEADER_SIZE) s1 of
                None \<Rightarrow> None
              | Some (Inl e) \<Rightarrow> Some (Inl e)
              | Some (Inr (s2, block)) \<Rightarrow>
                  Some (register_block (round_chunk n) t user junk block s2)) \<and>
           k \<le> length xs \<and> (xs \<noteq> [] \<longrightarrow> 0 < k) \<and>
           released s1 = released s @ take k xs \<and>
           free_memory s1 = free_memory s + sum_list (map (charge s) (take k xs)) \<and>
           zone_inv s1 \<and> bucket s1 PU_CACHE (drop k xs) \<and> same_outside {PU_CACHE} s s1 \<and>
           (k < length xs \<longrightarrow> \<not> short_after (round_chunk n) s (take k xs)) \<and>
           (\<forall>j<k. short_after (round_chunk n) s (take j xs))"
proof -
  let ?n = "round_chunk n"
  have sh: "short_of ?n s" using short_of_exact[OF assms(5,6,7)] assms(8) by simp
  from purge_pass_bucket[OF assms(1,2,4) sh]
  obtain s1 k where pp: "purge_pass ?n s = Some (Inr s1)" and k: "k \<le> length xs" "xs \<noteq> [] \<longrightarrow> 0 < k"
    and r: "zone_inv s1" "bucket s1 PU_CACHE (drop k xs)" "same_outside {PU_CACHE} s s1"
    and dr: "drops s (take k xs) s1"
    and st: "k < length xs \<longrightarrow> \<not> short_after ?n s (take k xs)"
      "\<forall>j. j < k \<longrightarrow> short_after ?n s (take j xs)"
    by blast
  have unf: "Z_Malloc n t user env junk s =
      (case malloc_loop env 0 (round_chunk n + HEADER_SIZE) s1 of None \<Rightarrow> None | Some (Inl e) \<Rightarrow> Some (Inl e)
       | Some (Inr (s2, block)) \<Rightarrow> Some (register_block ?n t user junk block s2))"
    using assms(3) pp by (simp add: Z_Malloc_def Let_def)
  show ?thesis
    using pp unf k r drops_released[OF dr] drops_free_memory[OF dr] st by blast
qed

theorem proactive_eviction_oldest_first_witness:
  "map_option (map_sum id (\<lambda>s1. (released s1, blockbytag s1 PU_CACHE, sint (free_memory s1))))
     (purge_pass (round_chunk 100)
        ((after [Malloc 32 6 None (grants 64) junk0, Malloc 32 6 None (grants 128) junk0,
                 Malloc 32 6 None (grants 192) junk0] (boot 200))))
   = Some (Inr ([64, 128], 192, - 32))"
proof -
  define S where "S = after [Malloc 32 6 None (grants 64) junk0, Malloc 32 6 None (grants 128) junk0,
                 Malloc 32 6 None (grants 192) junk0] (boot 200)"
  define xs :: "addr list" where "xs = [64, 128, 192]"
  have s: "S = \<lparr>blockbytag = (\<lambda>_. 0)(6 := 64), memory_size = 200, free_memory = - 96,
      blocks = [64 \<mapsto> \<lparr>next = 128, prev = 192, size_b = 32, tag = 6\<rparr>,
                128 \<mapsto> \<lparr>next = 192, prev = 64, size_b = 32, tag = 6\<rparr>,
                192 \<mapsto> \<lparr>next = 64, prev = 128, size_b = 32, tag = 6\<rparr>],
      spans = [64 \<mapsto> 64, 128 \<mapsto> 64, 192 \<mapsto> 64],
      released = [], mem = (\<lambda>_. 0), slots = (\<lambda>_. 0)\<rparr>"
    unfolding S_def by (simp add: eval_defs example_defs fun_upd_twist)
  have inv: "zone_inv S" unfolding S_def by (rule zone_inv_after)
  have bk: "bucket S PU_CACHE xs"
    unfolding s xs_def
    by (auto simp: bucket_def ring_def link_def live_def PU_CACHE_def split: if_splits)
  have rc: "round_chunk 100 = 128" by (simp add: round_chunk_def CHUNK_SIZE_def)
  have h: "(100 :: size_t) \<noteq> 0" "0 < sint (memory_size S)"
    "unat (round_chunk 100) + 32 < 2 ^ 31"
    "- (2 ^ 31) \<le> sint (free_memory S) + sint (memory_size S)"
    "sint (free_memory S) + sint (memory_size S) < 2 ^ 31"
    "sint (free_memory S) + sint (memory_size S) < int (unat (round_chunk 100)) + 32"
    unfolding rc s by simp_all
  have ch: "charge S 64 = 32" "charge S 128 = 32" "charge S 192 = 32"
    unfolding s by (simp_all add: charge_def)
  have fS: "free_memory S = - 96" "memory_size S = 200" "released S = []"
    unfolding s by simp_all
  have tk: "take 0 xs = []" "take 1 xs = [64]" "take 2 xs = [64, 128]" "drop 2 xs = [192]"
    unfolding xs_def by (simp_all add: take_Cons' drop_Cons')
  have sa0: "short_after (round_chunk 100) S (take 0 xs)"
    and sa1: "short_after (round_chunk 100) S (take 1 xs)"
    and sa2: "\<not> short_after (round_chunk 100) S (take 2 xs)"
    unfolding rc tk
    by (simp_all add: short_after_def ch fS HEADER_SIZE_32)
  from proactive_eviction_oldest_first[OF inv bk h, of 1 None "grants 256" junk0]
  obtain s1 k where pp: "purge_pass (round_chunk 100) S = Some (Inr s1)"
    and k0: "k \<le> length xs"
    and rel: "released s1 = released S @ take k xs"
    and fm: "free_memory s1 = free_memory S + sum_list (map (charge S) (take k xs))"
    and bk1: "bucket s1 PU_CACHE (drop k xs)"
    and st: "k < length xs \<longrightarrow> \<not> short_after (round_chunk 100) S (take k xs)"
      "\<forall>j<k. short_after (round_chunk 100) S (take j xs)"
    by blast
  have k: "k \<le> 3" using k0 by (simp add: xs_def)
  have l3: "length xs = 3" by (simp add: xs_def)
  have "k \<noteq> 0"
  proof
    assume "k = 0"
    then show False using st(1) sa0 l3 by simp
  qed
  moreover have "k \<noteq> 1"
  proof
    assume "k = 1"
    then show False using st(1) sa1 l3 by simp
  qed
  moreover have "k \<noteq> 3"
  proof
    assume "k = 3"
    then have "short_after (round_chunk 100) S (take 2 xs)" using st(2) by simp
    then show False using sa2 by simp
  qed
  ultimately have k2: "k = 2" using k by linarith
  have "take k xs = [64, 128]" "drop k xs = [192]"
    unfolding k2 by (rule tk)+
  then have "released s1 = [64, 128]" "blockbytag s1 PU_CACHE = 192" "free_memory s1 = - 32"
    using rel fm bk1 by (simp_all add: bucket_def ch fS)
  then show ?thesis using pp unfolding S_def by simp
qed

text \<open>
  C3 as stated fails for a size that the cast to \<^verbatim>\<open>int\<close> of line 150 truncates. With
  a ceiling of 16 MiB and one CACHE block of 32 bytes held, \<open>free_memory + memory_size\<close>
  is less than \<open>2^32 + 32\<close>, the rounded size of a request of \<open>2^32\<close> bytes plus the
  header; but the source compares with \<open>(int)(2^32 + 32) = 32\<close>, finds the headroom
  sufficient and evicts nothing: the pass returns the state as it was and the allocation
  goes on to request storage with the CACHE block still held.
\<close>

theorem proactive_eviction_oldest_first_counterexample:
  "0 < sint (memory_size (after [Malloc 32 6 None (grants 64) junk0] (boot 16777216))) \<and>
   sint (free_memory (after [Malloc 32 6 None (grants 64) junk0] (boot 16777216))) +
     sint (memory_size (after [Malloc 32 6 None (grants 64) junk0] (boot 16777216)))
     < int (unat (round_chunk 4294967296)) + int (unat HEADER_SIZE) \<and>
   blockbytag (after [Malloc 32 6 None (grants 64) junk0] (boot 16777216)) PU_CACHE = 64 \<and>
   purge_pass (round_chunk 4294967296) (after [Malloc 32 6 None (grants 64) junk0] (boot 16777216))
     = Some (Inr (after [Malloc 32 6 None (grants 64) junk0] (boot 16777216))) \<and>
   map_option (released \<circ> fst)
     (returned (Z_Malloc 4294967296 1 None (grants 128) junk0
        (after [Malloc 32 6 None (grants 64) junk0] (boot 16777216)))) = Some []"
  by (simp add: eval_defs example_defs)

text \<open>
  C4, as amended. With the ceiling at 0, allocate never runs the budget-driven eviction
  pass: for every size the pass leaves the state as it is. An allocate whose first request
  to the external allocator is answered then frees no existing block: it terminates, and
  when it returns, the log of released spans is unchanged and every block held before is
  still held. (When the external allocator fails, allocate evicts the CACHE bucket
  whatever the ceiling is.)
\<close>

theorem no_eviction_without_ceiling:
  assumes "memory_size s = 0"
  shows "purge_pass n s = Some (Inr s) \<and>
         (env 0 \<noteq> 0 \<longrightarrow>
            Z_Malloc n t user env junk s \<noteq> None \<and>
            (\<forall>s' p. Z_Malloc n t user env junk s = Some (Inr (s', p)) \<longrightarrow>
               released s' = released s \<and> (\<forall>a. blocks s a \<noteq> None \<longrightarrow> blocks s' a \<noteq> None)))"
proof -
  have pp: "purge_pass n s = Some (Inr s)" for n
    using assms by (simp add: purge_pass_def)
  have "Z_Malloc n t user env junk s \<noteq> None \<and>
            (\<forall>s' p. Z_Malloc n t user env junk s = Some (Inr (s', p)) \<longrightarrow>
               released s' = released s \<and> (\<forall>a. blocks s a \<noteq> None \<longrightarrow> blocks s' a \<noteq> None))"
    if e: "env 0 \<noteq> 0"
  proof (cases "n = 0")
    case True
    then show ?thesis by (auto simp: Z_Malloc_def)
  next
    case False
    let ?m = "round_chunk n + HEADER_SIZE"
    let ?s1 = "s\<lparr>spans := (spans s)(env 0 \<mapsto> ?m)\<rparr>"
    have ml: "malloc_loop env 0 ?m s =
           (if spans s (env 0) = None \<and> unat (env 0) + unat ?m < 2 ^ 64
            then Some (Inr (?s1, env 0))
            else Some (Inl BadAllocator))"
      using malloc_loop_answer[of env 0 ?m s] e by simp
    show ?thesis
    proof (cases "spans s (env 0) = None \<and> unat (env 0) + unat ?m < 2 ^ 64")
      case ok: True
      have "malloc_loop env 0 ?m s = Some (Inr (?s1, env 0))"
        unfolding ml by (rule if_P[OF ok])
      then have zm: "Z_Malloc n t user env junk s = Some (register_block (round_chunk n) t user junk (env 0) ?s1)"
        using False pp by (simp add: Z_Malloc_def Let_def)
      show ?thesis unfolding zm
        using register_block_keeps[of "round_chunk n" t user junk "env 0" ?s1] by auto
    next
      case bad: False
      have "malloc_loop env 0 ?m s = Some (Inl BadAllocator)"
        unfolding ml by (rule if_not_P[OF bad])
      then have "Z_Malloc n t user env junk s = Some (Inl BadAllocator)"
        using False pp by (simp add: Z_Malloc_def Let_def)
      then show ?thesis by simp
    qed
  qed
  then show ?thesis using pp by blast
qed

theorem no_eviction_without_ceiling_witness:
  "memory_size (after [Malloc 10 6 None (grants 64) junk0] (boot 0)) = 0 \<and>
   map_option (released \<circ> fst)
     (returned (Z_Malloc 10 1 None (grants 128) junk0
        (after [Malloc 10 6 None (grants 64) junk0] (boot 0)))) = Some [] \<and>
   blocks (after [Malloc 10 6 None (grants 64) junk0] (boot 0)) 64 \<noteq> None"
proof -
  let ?s = "after [Malloc 10 6 None (grants 64) junk0] (boot 0)"
  have m: "memory_size ?s = 0" and r: "released ?s = []" and b: "blocks ?s 64 \<noteq> None"
    by (simp_all add: eval_defs example_defs)
  obtain s' where z: "Z_Malloc 10 1 None (grants 128) junk0 ?s = Some (Inr (s', 160))"
    by (simp add: eval_defs example_defs)
  have g: "grants 128 0 \<noteq> 0" by (simp add: grants_def)
  from no_eviction_without_ceiling[OF m, of 10 "grants 128" 1 None junk0] g z r
  have "released s' = []" by simp
  then show ?thesis using m b z by (simp add: returned_def)
qed

text \<open>
  C4 as stated fails when the external allocator refuses the request: with the ceiling at
  0 and one CACHE block held at address 64, an allocate whose first request fails evicts
  that block before its second request is answered.
\<close>

theorem no_eviction_without_ceiling_counterexample:
  "memory_size (after [Malloc 10 6 None (grants 64) junk0] (boot 0)) = 0 \<and>
   blocks (after [Malloc 10 6 None (grants 64) junk0] (boot 0)) 64 \<noteq> None \<and>
   map_option (released \<circ> fst)
     (returned (Z_Malloc 10 1 None (refuses_once 128) junk0
        (after [Malloc 10 6 None (grants 64) junk0] (boot 0)))) = Some [64]"
  by (simp add: eval_defs example_defs)

text \<open>
  C5, as amended. In a state that satisfies the invariants, let \<open>newSize\<close> be at most
  \<open>2^64 - 64\<close> (so that neither the rounding nor the sum with the header wraps around
  in \<^verbatim>\<open>size_t\<close>), let the allocation of \<open>newSize\<close> bytes under the tag that
  reallocate makes first return the address \<open>p\<close> in the state \<open>s1\<close>, and let the old
  block be another block than the new one and held still in \<open>s1\<close> (the allocation has not
  evicted it). Then reallocate of the non-null pointer returns \<open>p\<close>. The bytes that are
  read lie in the payload of the old block and the bytes that are written in the payload
  of the new one. The first \<open>min(newSize, oldSize)\<close> bytes at \<open>p\<close> are those of the
  old payload, the bytes from \<open>oldSize\<close> up to \<open>newSize\<close> are zero when \<open>newSize\<close>
  exceeds the old recorded size, and no byte outside the \<open>newSize\<close> bytes at \<open>p\<close> is
  written. After the copy the old block is freed: it is unlinked and released and its
  size is credited to the budget. The slot, when supplied, is written with \<open>p\<close> after
  the free. (A request for 0 bytes makes the allocation return null: nothing is copied,
  the old block is freed and null is stored in the slot.) With the null pointer, in every
  state and for every size, reallocate is allocate.
\<close>

theorem reallocate_copies_and_frees:
  "(zone_inv s \<and> span_inv s \<and> unat n + 63 < 2 ^ 64 \<and>
    Z_Malloc n t user env junk s = Some (Inr (s1, p)) \<and>
    ptr \<noteq> 0 \<and> ptr \<noteq> p \<and> blocks s1 (ptr - HEADER_SIZE) = Some b \<longrightarrow>
      (\<exists>s3. Z_Realloc ptr n t user env junk s = Some (Inr (set_user user p s3, p)) \<and>
            in_payload s1 ptr 0 (if n \<le> size_b b then n else size_b b) \<and>
            in_payload s1 p 0 n \<and>
            Z_Free ptr (s1\<lparr>mem := mem s3\<rparr>) = Inr s3 \<and>
            (\<forall>i. i < n \<and> i < size_b b \<longrightarrow> mem s3 (p + i) = mem s (ptr + i)) \<and>
            (\<forall>i. size_b b \<le> i \<and> i < n \<longrightarrow> mem s3 (p + i) = 0) \<and>
            (\<forall>x. \<not> x - p < n \<longrightarrow> mem s3 x = mem s x) \<and>
            blocks s3 (ptr - HEADER_SIZE) = None \<and>
            released s3 = released s1 @ [ptr - HEADER_SIZE] \<and>
            free_memory s3 = free_memory s1 + ucast (size_b b) \<and>
            zone_inv s3 \<and> span_inv s3 \<and>
            slots (set_user user p s3) = slots (set_user user p s1))) \<and>
   Z_Realloc 0 n t user env junk s = Z_Malloc n t user env junk s"
proof (rule conjI, rule impI)
  show "Z_Realloc 0 n t user env junk s = Z_Malloc n t user env junk s"
    by (auto simp: Z_Realloc_def split: option.splits sum.splits)
next
  assume h: "zone_inv s \<and> span_inv s \<and> unat n + 63 < 2 ^ 64 \<and>
    Z_Malloc n t user env junk s = Some (Inr (s1, p)) \<and>
    ptr \<noteq> 0 \<and> ptr \<noteq> p \<and> blocks s1 (ptr - HEADER_SIZE) = Some b"
  then have inv: "zone_inv s" and si: "span_inv s" and bd: "unat n + 63 < 2 ^ 64"
    and z: "Z_Malloc n t user env junk s = Some (Inr (s1, p))"
    and p0: "ptr \<noteq> 0" and b: "blocks s1 (ptr - HEADER_SIZE) = Some b" by simp_all
  define old where "old = size_b b"
  define M where "M =
     (if n \<le> old then memcpy p ptr n (mem s1)
      else memset (p + old) 0 (n - old) (memcpy p ptr old (mem s1)))"
  let ?s2 = "s1\<lparr>mem := M\<rparr>"
  have inv1: "zone_inv s1" and si1: "span_inv s1" using Z_Malloc_inv[OF inv si z] .
  have m1: "mem s1 = mem s" using Z_Malloc_mem[OF inv si z] .
  have po: "in_payload s1 ptr off k" if "unat off + unat k \<le> unat old" for off k
    using span_invD[OF si1 b] that unfolding old_def
    by (intro in_payload_whole[where sz = "size_b b"]) simp_all
  have pn: "in_payload s1 p off k" if "unat off + unat k \<le> unat n" for off k
  proof (cases "n = 0")
    case True
    then have "k = 0" using that by (simp add: unat_eq_0)
    then show ?thesis by (simp add: in_payload_def)
  next
    case False
    from Z_Malloc_records[OF False z]
    have sp: "spans s1 (p - HEADER_SIZE) = Some (round_chunk n + HEADER_SIZE)" by blast
    have nw: "unat (round_chunk n) + unat HEADER_SIZE < 2 ^ 64"
      using header_fits[OF round_chunk_fits(2)[OF bd]] .
    show ?thesis
      by (rule in_payload_whole[OF sp nw]) (use that round_chunk_fits(3)[OF bd] in simp)
  qed
  have ip1: "in_payload s1 ptr 0 (if n \<le> old then n else old)"
    by (rule po) (simp add: word_le_nat_alt)
  have ip2: "in_payload s1 p 0 n" by (rule pn) simp
  have co: "copy_over p ptr n old s1 = Inr ?s2"
  proof (cases "n \<le> old")
    case True
    then show ?thesis using ip1 ip2 by (simp add: copy_over_def M_def)
  next
    case False
    then have lt: "old < n" by simp
    have "unat (n - old) = unat n - unat old"
      by (rule unat_sub) (use lt in simp)
    then have "unat old + unat (n - old) = unat n"
      using lt by (simp add: word_less_nat_alt)
    then have "in_payload s1 p old (n - old)" by (intro pn) simp
    moreover have "in_payload s1 p 0 old" by (rule pn) (use lt in \<open>simp add: word_less_nat_alt\<close>)
    ultimately show ?thesis using False ip1 by (simp add: copy_over_def M_def)
  qed
  have inv2: "zone_inv ?s2" using inv1 by simp
  have b2: "blocks ?s2 (ptr - HEADER_SIZE) = Some b" using b by simp
  from Z_Free_held[OF inv2 b2]
  obtain s3 where zf: "Z_Free ptr ?s2 = Inr s3" and inv3: "zone_inv s3"
    and dr: "drops ?s2 [ptr - HEADER_SIZE] s3" by blast
  have si3: "span_inv s3" by (rule span_inv_drops[OF _ dr]) (use si1 in simp)
  have m3: "mem s3 = M" using dr by (simp add: drops_def)
  have zr: "Z_Realloc ptr n t user env junk s = Some (Inr (set_user user p s3, p))"
    using z p0 b zf co unfolding Z_Realloc_def by (simp add: old_def)
  have c1: "M (p + i) = mem s (ptr + i)" if "i < n \<and> i < old" for i
  proof (cases "n \<le> old")
    case True
    then show ?thesis using that by (simp add: M_def memcpy_def m1)
  next
    case False
    then have "old < n" by simp
    from copy_low[OF _ this, of i] that show ?thesis
      using False by (simp add: M_def memcpy_def memset_def m1)
  qed
  have c2: "M (p + i) = 0" if "old \<le> i \<and> i < n" for i
  proof -
    have "\<not> n \<le> old" using that by auto
    moreover have "i - old < n - old" using fill_high[of old i n] that by simp
    ultimately show ?thesis by (simp add: M_def memset_def)
  qed
  have c3: "M x = mem s x" if "\<not> x - p < n" for x
  proof (cases "n \<le> old")
    case True
    then show ?thesis using that by (simp add: M_def memcpy_def m1)
  next
    case False
    then have lt: "old < n" by simp
    have "M x = memset (p + old) 0 (n - old) (memcpy p ptr old (mem s1)) x"
      using False by (simp add: M_def)
    also have "\<dots> = memcpy p ptr old (mem s1) x"
      using outside_both(1)[OF that lt] by (simp only: memset_def if_False)
    also have "\<dots> = mem s x"
      using outside_both(2)[OF that lt] by (simp only: memcpy_def if_False m1)
    finally show ?thesis .
  qed
  have gone: "blocks s3 (ptr - HEADER_SIZE) = None"
  proof -
    have "map_option info (blocks s3 (ptr - HEADER_SIZE)) = None"
      using dr by (simp add: drops_def)
    then show ?thesis by simp
  qed
  have rel: "released s3 = released s1 @ [ptr - HEADER_SIZE]"
    using drops_released[OF dr] by simp
  have fm: "free_memory s3 = free_memory s1 + ucast (size_b b)"
    using drops_free_memory[OF dr] b by (simp add: charge_def)
  have sl: "slots (set_user user p s3) = slots (set_user user p s1)"
    using dr by (cases user) (simp_all add: set_user_def drops_def)
  have zf': "Z_Free ptr (s1\<lparr>mem := mem s3\<rparr>) = Inr s3" using zf m3 by simp
  have c1': "\<forall>i. i < n \<and> i < size_b b \<longrightarrow> mem s3 (p + i) = mem s (ptr + i)"
    using c1 by (simp add: m3 old_def)
  have c2': "\<forall>i. size_b b \<le> i \<and> i < n \<longrightarrow> mem s3 (p + i) = 0"
    using c2 by (simp add: m3 old_def)
  have c3': "\<forall>x. \<not> x - p < n \<longrightarrow> mem s3 x = mem s x"
    using c3 by (simp add: m3)
  show "\<exists>s3. Z_Realloc ptr n t user env junk s = Some (Inr (set_user user p s3, p)) \<and>
            in_payload s1 ptr 0 (if n \<le> size_b b then n else size_b b) \<and>
            in_payload s1 p 0 n \<and>
            Z_Free ptr (s1\<lparr>mem := mem s3\<rparr>) = Inr s3 \<and>
            (\<forall>i. i < n \<and> i < size_b b \<longrightarrow> mem s3 (p + i) = mem s (ptr + i)) \<and>
            (\<forall>i. size_b b \<le> i \<and> i < n \<longrightarrow> mem s3 (p + i) = 0) \<and>
            (\<forall>x. \<not> x - p < n \<longrightarrow> mem s3 x = mem s x) \<and>
            blocks s3 (ptr - HEADER_SIZE) = None \<and>
            released s3 = released s1 @ [ptr - HEADER_SIZE] \<and>
            free_memory s3 = free_memory s1 + ucast (size_b b) \<and>
            zone_inv s3 \<and> span_inv s3 \<and>
            slots (set_user user p s3) = slots (set_user user p s1)"
    apply (rule exI[of _ s3])
    apply (intro conjI)
                apply (rule zr)
               apply (rule ip1[unfolded old_def])
              apply (rule ip2)
             apply (rule zf')
            apply (rule c1')
           apply (rule c2')
          apply (rule c3')
         apply (rule gone)
        apply (rule rel)
       apply (rule fm)
      apply (rule inv3)
     apply (rule si3)
    apply (rule sl)
    done
qed

theorem reallocate_copies_and_frees_witness:
  "map_option (\<lambda>x. (snd x, map (mem (fst x)) [160, 161, 191, 192, 199, 200],
       blocks (fst x) 64, released (fst x), slots (fst x) 3))
     (returned (Z_Realloc 96 40 1 (Some 3) (grants 128) junk0
        ((after [Malloc 10 6 None (grants 64) junk0] (boot 0))\<lparr>mem := (\<lambda>a. 7)\<rparr>)))
   = Some (160, [7, 7, 7, 0, 0, 7], None, [64], 160)"
proof -
  define S where "S = (after [Malloc 10 6 None (grants 64) junk0] (boot 0))\<lparr>mem := (\<lambda>a. 7)\<rparr>"
  have inv: "zone_inv S" unfolding S_def using zone_inv_after by simp
  have si: "span_inv S" unfolding S_def using span_inv_after by simp
  have mS: "mem S = (\<lambda>a. 7)" unfolding S_def by simp
  obtain s1 where z: "Z_Malloc 40 1 (Some 3) (grants 128) junk0 S = Some (Inr (s1, 160))"
    and b: "blocks s1 (96 - HEADER_SIZE) = Some \<lparr>next = 64, prev = 64, size_b = 32, tag = 6\<rparr>"
    and s1: "released s1 = []"
    unfolding S_def by (simp add: eval_defs example_defs)
  have p: "(96 :: addr) \<noteq> 0" "(96 :: addr) \<noteq> 160" "unat (40 :: size_t) + 63 < 2 ^ 64" by simp_all
  from reallocate_copies_and_frees[of S 40 1 "Some 3" "grants 128" junk0 s1 160 96
      "\<lparr>next = 64, prev = 64, size_b = 32, tag = 6\<rparr>"] inv si z p b
  obtain s3 where zr: "Z_Realloc 96 40 1 (Some 3) (grants 128) junk0 S
        = Some (Inr (set_user (Some 3) 160 s3, 160))"
    and c1: "\<forall>i. i < 40 \<and> i < 32 \<longrightarrow> mem s3 (160 + i) = 7"
    and c2: "\<forall>i. 32 \<le> i \<and> i < 40 \<longrightarrow> mem s3 (160 + i) = 0"
    and c3: "\<forall>x. \<not> x - 160 < 40 \<longrightarrow> mem s3 x = 7"
    and g: "blocks s3 (96 - HEADER_SIZE) = None" "released s3 = released s1 @ [96 - HEADER_SIZE]"
    unfolding mS by auto
  have "mem s3 160 = 7" "mem s3 161 = 7" "mem s3 191 = 7"
    using c1[rule_format, of 0] c1[rule_format, of 1] c1[rule_format, of 31] by simp_all
  moreover have "mem s3 192 = 0" "mem s3 199 = 0"
    using c2[rule_format, of 32] c2[rule_format, of 39] by simp_all
  moreover have "mem s3 200 = 7" using c3[rule_format, of 200] by simp
  moreover have "blocks s3 64 = None" "released s3 = [64]"
    using g s1 by (simp_all add: HEADER_SIZE_32)
  ultimately show ?thesis
    using zr unfolding S_def by (simp add: returned_def set_user_def)
qed

text \<open>
  C5 as stated fails in two ways. First, when the allocation evicts the block that is
  being reallocated: with one CACHE block held at address 64 (payload 96) and an external
  allocator that refuses the first request, the allocation inside reallocate evicts the
  CACHE bucket, and the old block with it; the copy and the free that follow go through
  a pointer to a header that is no longer held. Second, where the arithmetic on the size
  wraps around: for a new size of \<open>2^64 - 1\<close> bytes the allocation, which is answered
  at once and leaves the old block held, returns a payload with no byte behind its
  header, and the copy of the 32 bytes of the old payload is written past the span.
\<close>

theorem reallocate_copies_and_frees_counterexample:
  "blocks (after [Malloc 10 6 None (grants 64) junk0] (boot 0)) (96 - HEADER_SIZE) \<noteq> None \<and>
   Z_Realloc 96 40 1 None (refuses_once 128) junk0
     (after [Malloc 10 6 None (grants 64) junk0] (boot 0)) = Some (Inl Undefined) \<and>
   map_option snd (returned (Z_Malloc (- 1) 1 None (grants 128) junk0
     (after [Malloc 10 6 None (grants 64) junk0] (boot 0)))) = Some 160 \<and>
   map_option (usable 1) (returned (Z_Malloc (- 1) 1 None (grants 128) junk0
     (after [Malloc 10 6 None (grants 64) junk0] (boot 0)))) = Some False \<and>
   blocks (after [Malloc 10 6 None (grants 64) junk0, Malloc (- 1) 1 None (grants 128) junk0]
     (boot 0)) (96 - HEADER_SIZE) \<noteq> None \<and>
   Z_Realloc 96 (- 1) 1 None (grants 128) junk0
     (after [Malloc 10 6 None (grants 64) junk0] (boot 0)) = Some (Inl Undefined)"
  by (simp add: eval_defs example_defs Z_Realloc_def unsigned_minus_1_eq_mask mask_eq_exp_minus_1)

text \<open>
  C6. In a state that satisfies the invariant, with \<open>f t\<close> the bucket of tag \<open>t\<close> listed
  from its head, freeAllInRange with any \<open>lowTag\<close> and \<open>highTag\<close> returns. It works
  on the tags from \<open>lowTag\<close> raised to the first tag above FREE up to \<open>highTag\<close> lowered
  to CACHE: it releases the blocks of these buckets, bucket after bucket in ascending tag
  order and each bucket from its head to its tail, credits their sizes to the budget and
  leaves every one of these buckets empty (no head, no live block). Every block of another
  tag is left as it was and every other head is unchanged, the head of the FREE bucket
  and the heads above CACHE among them.
\<close>

theorem freeAllInRange_empties_range:
  assumes "zone_inv s" and "\<forall>t. valid_tag t \<longrightarrow> bucket s t (f t)"
  shows "\<exists>s'. Z_FreeTags lo hi s = Some (Inr s') \<and> zone_inv s' \<and>
           Z_FreeTags lo hi s = FreeTags_loop (max lo (PU_FREE + 1)) (min hi PU_CACHE) s \<and>
           (\<forall>t. max lo (PU_FREE + 1) \<le> t \<and> t \<le> min hi PU_CACHE \<longrightarrow>
                  blockbytag s' t = 0 \<and> live s' t = {}) \<and>
           released s' = released s @ concat (map f [max lo (PU_FREE + 1)..min hi PU_CACHE]) \<and>
           free_memory s' = free_memory s +
             sum_list (map (charge s) (concat (map f [max lo (PU_FREE + 1)..min hi PU_CACHE]))) \<and>
           (\<forall>x r. blocks s x = Some r \<and> \<not> (max lo (PU_FREE + 1) \<le> tag r \<and> tag r \<le> min hi PU_CACHE)
                  \<longrightarrow> blocks s' x = Some r) \<and>
           (\<forall>x r. blocks s' x = Some r \<longrightarrow> blocks s x = Some r) \<and>
           (\<forall>t. \<not> (max lo (PU_FREE + 1) \<le> t \<and> t \<le> min hi PU_CACHE) \<longrightarrow>
                  blockbytag s' t = blockbytag s t) \<and>
           blockbytag s' PU_FREE = blockbytag s PU_FREE \<and>
           (\<forall>t. PU_CACHE < t \<longrightarrow> blockbytag s' t = blockbytag s t)"
proof -
  let ?lo = "max lo (PU_FREE + 1)" and ?hi = "min hi PU_CACHE"
  from Z_FreeTags_buckets[OF assms, of lo hi]
  obtain s' where ft: "Z_FreeTags lo hi s = Some (Inr s')" and inv': "zone_inv s'"
    and em: "\<forall>t. ?lo \<le> t \<and> t \<le> ?hi \<longrightarrow> bucket s' t []"
    and so: "same_outside {?lo..?hi} s s'"
    and dr: "drops s (concat (map f [?lo..?hi])) s'" by blast
  have cl: "Z_FreeTags lo hi s = FreeTags_loop ?lo ?hi s"
    by (simp only: Z_FreeTags_def Let_def clamp_lo clamp_hi)
  have 1: "\<forall>t. ?lo \<le> t \<and> t \<le> ?hi \<longrightarrow> blockbytag s' t = 0 \<and> live s' t = {}"
    using em by (simp add: bucket_empty_iff)
  have 2: "\<forall>x r. blocks s x = Some r \<and> \<not> (?lo \<le> tag r \<and> tag r \<le> ?hi) \<longrightarrow> blocks s' x = Some r"
    using same_outside_block[OF so] by auto
  have 3: "\<forall>x r. blocks s' x = Some r \<longrightarrow> blocks s x = Some r"
  proof (intro allI impI)
    fix x r assume b: "blocks s' x = Some r"
    have "\<not> (?lo \<le> tag r \<and> tag r \<le> ?hi)"
    proof
      assume "?lo \<le> tag r \<and> tag r \<le> ?hi"
      then have "live s' (tag r) = {}" using 1 by blast
      then show False using b by (auto simp: live_def)
    qed
    then show "blocks s x = Some r" using same_outside_block_rev[OF so b] by auto
  qed
  have 4: "\<forall>t. \<not> (?lo \<le> t \<and> t \<le> ?hi) \<longrightarrow> blockbytag s' t = blockbytag s t"
    using same_outside_head[OF so] by auto
  have 5: "blockbytag s' PU_FREE = blockbytag s PU_FREE" using 4 by simp
  have 6: "\<forall>t. PU_CACHE < t \<longrightarrow> blockbytag s' t = blockbytag s t" using 4 by simp
  show ?thesis
    using ft inv' cl 1 drops_released[OF dr] drops_free_memory[OF dr] 2 3 4 5 6 by blast
qed

theorem freeAllInRange_empties_range_witness:
  "map_option (map_sum id (\<lambda>s'. (released s', blockbytag s' PU_CACHE, live s' PU_CACHE)))
     (Z_FreeTags PU_CACHE PU_CACHE
        (after [Malloc 10 6 None (grants 64) junk0, Malloc 40 6 None (grants 128) junk0,
                Malloc 1 6 None (grants 192) junk0] (boot 0)))
   = Some (Inr ([64, 128, 192], 0, {}))"
proof -
  let ?s = "after [Malloc 10 6 None (grants 64) junk0, Malloc 40 6 None (grants 128) junk0,
                Malloc 1 6 None (grants 192) junk0] (boot 0)"
  define f :: "int \<Rightarrow> addr list" where "f t = (if t = 6 then [64, 128, 192] else [])" for t
  have s: "?s = \<lparr>blockbytag = (\<lambda>_. 0)(6 := 64), memory_size = 0, free_memory = - 128,
      blocks = [64 \<mapsto> \<lparr>next = 128, prev = 192, size_b = 32, tag = 6\<rparr>,
                128 \<mapsto> \<lparr>next = 192, prev = 64, size_b = 64, tag = 6\<rparr>,
                192 \<mapsto> \<lparr>next = 64, prev = 128, size_b = 32, tag = 6\<rparr>],
      spans = [64 \<mapsto> 64, 128 \<mapsto> 96, 192 \<mapsto> 64],
      released = [], mem = (\<lambda>_. 0), slots = (\<lambda>_. 0)\<rparr>"
    by (simp add: eval_defs example_defs fun_upd_twist)
  have inv: "zone_inv ?s" by (rule zone_inv_after)
  have bk: "\<forall>t. valid_tag t \<longrightarrow> bucket ?s t (f t)"
    unfolding s by (auto simp: bucket_def ring_def link_def live_def f_def split: if_splits)
  have r: "released ?s = []" unfolding s by simp
  have m: "max PU_CACHE (PU_FREE + 1) = 6" "min PU_CACHE PU_CACHE = 6"
    by (simp_all add: PU_CACHE_def PU_FREE_def)
  from freeAllInRange_empties_range[OF inv bk, of PU_CACHE PU_CACHE]
  obtain s' where "Z_FreeTags PU_CACHE PU_CACHE ?s = Some (Inr s')"
    "blockbytag s' 6 = 0 \<and> live s' 6 = {}" "released s' = [64, 128, 192]"
    unfolding m r by (auto simp: f_def)
  then show ?thesis by (simp add: PU_CACHE_def)
qed



text \<open>
  C8, as amended. For every size \<open>n > 0\<close> that is at most \<open>2^64 - 64\<close> (so that
  neither \<open>n + 31\<close> nor the rounded size plus the header wraps around in
  \<^verbatim>\<open>size_t\<close>), every tag and every state, the block of the address that allocate
  returns records the size \<open>n\<close> rounded up to the next multiple of 32: it is at least
  \<open>n\<close> and a multiple of the chunk granularity, and the span that was asked for holds
  the header and that many bytes behind it. A request of 10 bytes records 32, one of 40
  bytes records 64.
\<close>

theorem allocate_rounds_size:
  assumes "n \<noteq> 0" and "unat n + 63 < 2 ^ 64"
    and "Z_Malloc n t user env junk s = Some (Inr (s', p))"
  shows "(\<exists>r. blocks s' (p - HEADER_SIZE) = Some r \<and> size_b r = round_chunk n \<and>
            n \<le> size_b r \<and> 32 dvd unat (size_b r) \<and>
            unat (size_b r) = ((unat n + 31) div 32) * 32 \<and>
            spans s' (p - HEADER_SIZE) = Some (size_b r + HEADER_SIZE) \<and>
            in_payload s' p 0 (size_b r)) \<and>
         round_chunk 10 = 32 \<and> round_chunk 40 = 64"
proof -
  have b: "unat n + 31 < 2 ^ 64" using assms(2) by simp
  obtain r where r: "blocks s' (p - HEADER_SIZE) = Some r" "size_b r = round_chunk n"
    and sp: "spans s' (p - HEADER_SIZE) = Some (round_chunk n + HEADER_SIZE)"
    using Z_Malloc_records[OF assms(1,3)] by blast
  have nw: "unat (round_chunk n) + unat HEADER_SIZE < 2 ^ 64"
    using round_chunk_fits(1)[OF assms(2)] unsigned_less[of "round_chunk n + HEADER_SIZE", where ?'a = nat]
    by (simp add: HEADER_SIZE_32)
  have "n \<le> size_b r" using round_chunk_ge[OF b] r(2) by simp
  moreover have u: "unat (size_b r) = ((unat n + 31) div 32) * 32"
    using unat_round_chunk[OF b] r(2) by simp
  moreover have "32 dvd unat (size_b r)" unfolding u by simp
  moreover have "spans s' (p - HEADER_SIZE) = Some (size_b r + HEADER_SIZE)"
    using sp r(2) by simp
  moreover have "in_payload s' p 0 (size_b r)"
    unfolding r(2) by (rule in_payload_whole[OF sp nw]) simp
  moreover have "round_chunk 10 = 32" "round_chunk 40 = 64"
    by (simp_all add: round_chunk_def CHUNK_SIZE_def)
  ultimately show ?thesis using r by blast
qed

theorem allocate_rounds_size_witness:
  "map_option recorded_size (returned (Z_Malloc 10 1 None (grants 64) junk0 (boot 0))) = Some (Some 32) \<and>
   map_option recorded_size (returned (Z_Malloc 40 1 None (grants 64) junk0 (boot 0))) = Some (Some 64)"
proof -
  obtain s' where 1: "Z_Malloc 10 1 None (grants 64) junk0 (boot 0) = Some (Inr (s', 96))"
    by (simp add: eval_defs example_defs)
  obtain s'' where 2: "Z_Malloc 40 1 None (grants 64) junk0 (boot 0) = Some (Inr (s'', 96))"
    by (simp add: eval_defs example_defs)
  have a: "(10 :: size_t) \<noteq> 0" "unat (10 :: size_t) + 63 < 2 ^ 64"
    and b: "(40 :: size_t) \<noteq> 0" "unat (40 :: size_t) + 63 < 2 ^ 64" by simp_all
  from allocate_rounds_size[OF a 1] allocate_rounds_size[OF b 2] 1 2
  show ?thesis by (auto simp: returned_def recorded_size_def)
qed

text \<open>
  C8 as stated fails where the arithmetic on the size wraps around. A request of
  \<open>2^64 - 1\<close> bytes is rounded to 0, the external allocator is asked for the header
  alone, and the block that is returned records size 0, which is less than the size
  requested. A request of \<open>2^64 - 32\<close> bytes is rounded to itself, the sum with the
  header wraps around to 0, the external allocator is asked for 0 bytes and the header is
  written outside of what it answers with.
\<close>

theorem allocate_rounds_size_counterexample:
  "map_option recorded_size (returned (Z_Malloc (- 1) 1 None (grants 64) junk0 (boot 0))) = Some (Some 0) \<and>
   \<not> ((- 1 :: size_t) \<le> 0) \<and>
   Z_Malloc (- 32) 1 None (grants 64) junk0 (boot 0) = Some (Inl Undefined)"
  by (simp add: eval_defs example_defs)

text \<open>
  C9. For every tag, slot, allocator and state, allocate of 0 bytes returns null and
  allocates nothing: the bucket table, the budget counter, the held blocks, the log of
  released spans and the memory are those of the state before. When a slot is supplied,
  null is written into it; without one the state is unchanged altogether.
\<close>

theorem allocate_zero:
  "Z_Malloc 0 t user env junk s = Some (Inr (set_user user 0 s, 0)) \<and>
   blockbytag (set_user user 0 s) = blockbytag s \<and>
   free_memory (set_user user 0 s) = free_memory s \<and>
   memory_size (set_user user 0 s) = memory_size s \<and>
   blocks (set_user user 0 s) = blocks s \<and>
   released (set_user user 0 s) = released s \<and>
   mem (set_user user 0 s) = mem s \<and>
   set_user None 0 s = s \<and>
   slots (set_user (Some u) 0 s) = (slots s)(u := 0)"
  by (simp add: Z_Malloc_def) (simp add: set_user_def)

theorem allocate_zero_witness:
  "Z_Malloc 0 1 (Some 3) (grants 64) junk0 (boot 0) = Some (Inr (set_user (Some 3) 0 (boot 0), 0)) \<and>
   slots (set_user (Some 3) 0 (boot 0)) 3 = 0 \<and>
   blocks (set_user (Some 3) 0 (boot 0)) = Map.empty"
  using allocate_zero[of 1 "Some 3" "grants 64" junk0 "boot 0" 3]
  by (simp add: boot_def Z_Init_def)

text \<open>
  C10. When the product \<open>count * elemSize\<close>, computed in \<^verbatim>\<open>size_t\<close>, is 0,
  zero-allocate returns null and leaves the whole state as it was, the destination slot
  included: nothing is allocated and nothing is written into the slot. Allocate of 0 bytes
  with the same slot, in contrast, writes null into it.
\<close>

theorem zero_allocate_leaves_slot:
  assumes "n1 * n2 = 0"
  shows "Z_Calloc n1 n2 t user env junk s = Some (Inr (s, 0)) \<and>
         Z_Malloc 0 t (Some u) env junk s = Some (Inr (s\<lparr>slots := (slots s)(u := 0)\<rparr>, 0))"
  using assms by (simp add: Z_Calloc_def Z_Malloc_def set_user_def)

theorem zero_allocate_leaves_slot_witness:
  "(0 :: size_t) * 8 = 0 \<and>
   Z_Calloc 0 8 1 (Some 3) (grants 64) junk0 ((boot 0)\<lparr>slots := (slots (boot 0))(3 := 5)\<rparr>)
     = Some (Inr ((boot 0)\<lparr>slots := (slots (boot 0))(3 := 5)\<rparr>, 0)) \<and>
   slots ((boot 0)\<lparr>slots := (slots (boot 0))(3 := 5)\<rparr>) 3 = 5"
proof -
  have h: "(0 :: size_t) * 8 = 0" by simp
  from zero_allocate_leaves_slot[OF h, of 1 "Some 3" "grants 64" junk0
      "(boot 0)\<lparr>slots := (slots (boot 0))(3 := 5)\<rparr>" 3]
  show ?thesis by simp
qed

end
